theory Spec2Isabelle
  imports Main "HOL-Library.Word"
begin

section \<open>The event bus of include/core/EventBus.hpp\<close>

text \<open>
  The development embeds the two classes of \<^verbatim>\<open>EventBus.hpp\<close>: the registry
  \<^verbatim>\<open>EventBus\<close> and the move-only token \<^verbatim>\<open>Subscription\<close>.

  \<^item> \<^verbatim>\<open>size_t\<close> is taken as the 64-bit unsigned integer of an LP64 platform, so
    \<^verbatim>\<open>nextId++\<close> wraps around at \<open>2 ^ 64\<close>.
  \<^item> \<^verbatim>\<open>std::type_index\<close> is an opaque key with equality; \<^verbatim>\<open>typeid(void)\<close>, the
    default of a token's \<^verbatim>\<open>eventType\<close>, has a constructor of its own.
  \<^item> Objects that are shared or compared by address live in an explicit store:
    the buses owned through \<^verbatim>\<open>std::shared_ptr\<close> (an address with no entry is a
    destroyed bus) and the token objects. A \<^verbatim>\<open>std::weak_ptr\<close> is an optional
    address, \<open>None\<close> being the empty pointer.
  \<^item> A \<^verbatim>\<open>std::function\<close> stored in a wrapper may run any code, including calls
    back into the bus that holds it. The wrapper therefore stores the name of
    its callback (a value of type \<open>'c\<close>), and what a callback does is given by an
    environment \<open>run\<close> mapping a name and an event to a transformer of the whole
    store, which either returns or throws. A callback that never comes back is
    outside the model.
  \<^item> The mutex is not modelled: all functions below are sequential, which covers
    calls from one thread, reentrant ones included. A call that another thread
    makes under the lock while a publish is between two callbacks changes the
    store as a callback's own call would.
\<close>

subsection \<open>Data\<close>

type_synonym HandlerId = "64 word"

type_synonym addr = nat

datatype type_index = typeid_void | typeid_of nat

text \<open>\<^verbatim>\<open>IEventWrapper\<close> with its subclass \<^verbatim>\<open>EventWrapper<T>\<close>; the field \<^verbatim>\<open>id\<close> is
  called \<open>wrapper_id\<close> here, \<open>id\<close> being the identity function of HOL.\<close>

record 'c EventWrapper =
  wrapper_id :: HandlerId
  callback :: 'c

record 'c EventBus =
  subscribers :: "type_index \<rightharpoonup> 'c EventWrapper list"
  nextId :: HandlerId

record Subscription =
  weakBus :: "addr option"
  eventType :: type_index
  handlerId :: HandlerId

record 'c world =
  buses :: "addr \<rightharpoonup> 'c EventBus"
  tokens :: "addr \<Rightarrow> Subscription"

datatype 'w outcome = Returned 'w | Thrown 'w

fun state_of :: "'w outcome \<Rightarrow> 'w" where
  "state_of (Returned w) = w"
| "state_of (Thrown w) = w"

fun returns :: "'w outcome \<Rightarrow> bool" where
  "returns (Returned w) = True"
| "returns (Thrown w) = False"

type_synonym ('c, 'v) behaviour = "'c \<Rightarrow> 'v \<Rightarrow> 'c world \<Rightarrow> 'c world outcome"

subsection \<open>The registry\<close>

text \<open>A bus as its member initialisers leave it: no bucket, \<^verbatim>\<open>nextId = 1\<close>.\<close>

definition EventBus_new :: "'c EventBus" where
  "EventBus_new = \<lparr>subscribers = Map.empty, nextId = 1\<rparr>"

text \<open>\<^verbatim>\<open>EventBus::subscribe\<close>. The argument \<open>weak_this\<close> is the value of
  \<^verbatim>\<open>weak_from_this()\<close>; \<^verbatim>\<open>subscribers[typeIdx]\<close> creates an empty bucket when
  the key is absent, and \<^verbatim>\<open>push_back\<close> appends to it.\<close>

definition EventBus_subscribe ::
  "addr option \<Rightarrow> type_index \<Rightarrow> 'c \<Rightarrow> 'c EventBus \<Rightarrow> Subscription \<times> 'c EventBus" where
  "EventBus_subscribe weak_this typeIdx cb bus =
     (let hid = nextId bus;
          bus1 = bus\<lparr>nextId := nextId bus + 1\<rparr>;
          wrapper = \<lparr>wrapper_id = hid, callback = cb\<rparr>;
          bucket = (case subscribers bus1 typeIdx of None \<Rightarrow> [] | Some l \<Rightarrow> l)
      in (\<lparr>weakBus = weak_this, eventType = typeIdx, handlerId = hid\<rparr>,
          bus1\<lparr>subscribers := (subscribers bus1)(typeIdx \<mapsto> bucket @ [wrapper])\<rparr>))"

text \<open>\<^verbatim>\<open>EventBus::unsubscribe\<close>: \<^verbatim>\<open>std::erase_if\<close> drops every wrapper with the
  given id, and an emptied bucket is erased from the map.\<close>

definition EventBus_unsubscribe :: "type_index \<Rightarrow> HandlerId \<Rightarrow> 'c EventBus \<Rightarrow> 'c EventBus" where
  "EventBus_unsubscribe type hid bus =
     (case subscribers bus type of
        None \<Rightarrow> bus
      | Some l \<Rightarrow>
          (let l' = filter (\<lambda>wrapper. \<not> (wrapper_id wrapper = hid)) l
           in if l' = [] then bus\<lparr>subscribers := (subscribers bus)(type := None)\<rparr>
              else bus\<lparr>subscribers := (subscribers bus)(type \<mapsto> l')\<rparr>))"

text \<open>The loop of \<^verbatim>\<open>EventBus::publish\<close> over the snapshot. Each wrapper is called
  with the event on the store its predecessors left; an exception leaves the
  loop. The first component of the result is the list of calls made, in order.\<close>

fun deliver ::
  "('c, 'v) behaviour \<Rightarrow> 'v \<Rightarrow> 'c EventWrapper list \<Rightarrow> 'c world \<Rightarrow>
     ('c EventWrapper \<times> 'v) list \<times> 'c world outcome" where
  "deliver run event [] w = ([], Returned w)"
| "deliver run event (wrapper # rest) w =
     (case run (callback wrapper) event w of
        Thrown w' \<Rightarrow> ([(wrapper, event)], Thrown w')
      | Returned w' \<Rightarrow>
          (case deliver run event rest w' of (calls, r) \<Rightarrow> ((wrapper, event) # calls, r)))"

text \<open>\<^verbatim>\<open>EventBus::publish\<close> on the bus at address \<open>this\<close>. The snapshot is the
  bucket as it is when the call starts. \<open>None\<close> stands for a call through a
  dangling \<open>this\<close>, which no holder of a \<^verbatim>\<open>shared_ptr\<close> can make.\<close>

definition EventBus_publish ::
  "('c, 'v) behaviour \<Rightarrow> addr \<Rightarrow> type_index \<Rightarrow> 'v \<Rightarrow> 'c world \<Rightarrow>
     (('c EventWrapper \<times> 'v) list \<times> 'c world outcome) option" where
  "EventBus_publish run this typeIdx event w =
     (case buses w this of
        None \<Rightarrow> None
      | Some bus \<Rightarrow>
          (case subscribers bus typeIdx of
             None \<Rightarrow> Some ([], Returned w)
           | Some listenersSnapshot \<Rightarrow>
               if listenersSnapshot = [] then Some ([], Returned w)
               else Some (deliver run event listenersSnapshot w)))"

text \<open>The same two mutators on a bus in the store, as a caller that holds a
  \<^verbatim>\<open>shared_ptr\<close> to it (a callback, for instance) reaches them.\<close>

definition subscribe_at ::
  "addr \<Rightarrow> type_index \<Rightarrow> 'c \<Rightarrow> 'c world \<Rightarrow> (Subscription \<times> 'c world) option" where
  "subscribe_at this typeIdx cb w =
     (case buses w this of
        None \<Rightarrow> None
      | Some bus \<Rightarrow>
          (case EventBus_subscribe (Some this) typeIdx cb bus of
             (token, bus') \<Rightarrow> Some (token, w\<lparr>buses := (buses w)(this \<mapsto> bus')\<rparr>)))"

definition unsubscribe_at :: "addr \<Rightarrow> type_index \<Rightarrow> HandlerId \<Rightarrow> 'c world \<Rightarrow> 'c world" where
  "unsubscribe_at this type hid w =
     (case buses w this of
        None \<Rightarrow> w
      | Some bus \<Rightarrow> w\<lparr>buses := (buses w)(this \<mapsto> EventBus_unsubscribe type hid bus)\<rparr>)"

subsection \<open>The token\<close>

text \<open>\<^verbatim>\<open>Subscription() = default\<close> with the default member initialisers.\<close>

definition Subscription_default :: Subscription where
  "Subscription_default = \<lparr>weakBus = None, eventType = typeid_void, handlerId = 0\<rparr>"

text \<open>\<^verbatim>\<open>weak_ptr::lock\<close>: the address of the bus when it is still alive.\<close>

definition lock :: "addr option \<Rightarrow> 'c world \<Rightarrow> addr option" where
  "lock wp w = (case wp of None \<Rightarrow> None
                | Some a \<Rightarrow> (case buses w a of None \<Rightarrow> None | Some bus \<Rightarrow> Some a))"

text \<open>\<^verbatim>\<open>Subscription::unsubscribe\<close> of the token object at address \<open>this\<close>.\<close>

definition Subscription_unsubscribe :: "addr \<Rightarrow> 'c world \<Rightarrow> 'c world" where
  "Subscription_unsubscribe this w =
     (let s = tokens w this in
      if handlerId s = 0 then w
      else
        (let w1 = (case lock (weakBus s) w of
                     Some bus \<Rightarrow> unsubscribe_at bus (eventType s) (handlerId s) w
                   | None \<Rightarrow> w)
         in w1\<lparr>tokens := (tokens w1)(this := s\<lparr>handlerId := 0, weakBus := None\<rparr>)\<rparr>))"

text \<open>\<^verbatim>\<open>~Subscription\<close> runs \<^verbatim>\<open>unsubscribe\<close> and nothing else.\<close>

definition Subscription_destroy :: "addr \<Rightarrow> 'c world \<Rightarrow> 'c world" where
  "Subscription_destroy this w = Subscription_unsubscribe this w"

text \<open>\<^verbatim>\<open>Subscription::moveFrom\<close> on two distinct objects, as both of its callers
  guarantee: the result is the pair of \<^verbatim>\<open>*this\<close> and \<^verbatim>\<open>other\<close> after the call.
  A moved-from \<^verbatim>\<open>weak_ptr\<close> is empty.\<close>

definition moveFrom :: "Subscription \<Rightarrow> Subscription \<Rightarrow> Subscription \<times> Subscription" where
  "moveFrom self other =
     (self\<lparr>weakBus := weakBus other, eventType := eventType other, handlerId := handlerId other\<rparr>,
      other\<lparr>handlerId := 0, weakBus := None\<rparr>)"

text \<open>The move constructor builds a new object at \<open>this\<close>, whose members start
  from their default initialisers, and calls \<^verbatim>\<open>moveFrom\<close>.\<close>

definition Subscription_move_construct :: "addr \<Rightarrow> addr \<Rightarrow> 'c world \<Rightarrow> 'c world" where
  "Subscription_move_construct this other w =
     (case moveFrom Subscription_default (tokens w other) of
        (self', other') \<Rightarrow> w\<lparr>tokens := (tokens w)(this := self', other := other')\<rparr>)"

text \<open>The move assignment operator, with its test \<^verbatim>\<open>this != &other\<close>.\<close>

definition Subscription_move_assign :: "addr \<Rightarrow> addr \<Rightarrow> 'c world \<Rightarrow> 'c world" where
  "Subscription_move_assign this other w =
     (if this \<noteq> other then
        (let w1 = Subscription_unsubscribe this w in
         case moveFrom (tokens w1 this) (tokens w1 other) of
           (self', other') \<Rightarrow> w1\<lparr>tokens := (tokens w1)(this := self', other := other')\<rparr>)
      else w)"

text \<open>Dropping the last \<^verbatim>\<open>shared_ptr\<close> to a bus destroys it.\<close>

definition EventBus_destroy :: "addr \<Rightarrow> 'c world \<Rightarrow> 'c world" where
  "EventBus_destroy a w = w\<lparr>buses := (buses w)(a := None)\<rparr>"

subsection \<open>Running callbacks in order\<close>

text \<open>The store on which the callback at position \<open>k\<close> of a list is called when
  the callbacks are run one after the other from the store \<open>w\<close>, each on the
  store that the one before it returned; at \<open>k\<close> the length of the list, the
  store that the last one returned. It is \<open>None\<close> when an earlier callback
  throws or the list is shorter. The loop of \<^verbatim>\<open>publish\<close> is compared with it.\<close>

fun reached ::
  "('c, 'v) behaviour \<Rightarrow> 'v \<Rightarrow> 'c EventWrapper list \<Rightarrow> 'c world \<Rightarrow> nat \<Rightarrow> 'c world option" where
  "reached run event l w 0 = Some w"
| "reached run event [] w (Suc k) = None"
| "reached run event (wrapper # rest) w (Suc k) =
     (case run (callback wrapper) event w of
        Returned w' \<Rightarrow> reached run event rest w' k
      | Thrown w' \<Rightarrow> None)"

subsection \<open>Buckets and the invariant\<close>

text \<open>The bucket of a type as a list, empty when the map has no entry.\<close>

definition bucket :: "'c EventBus \<Rightarrow> type_index \<Rightarrow> 'c EventWrapper list" where
  "bucket bus T = (case subscribers bus T of None \<Rightarrow> [] | Some l \<Rightarrow> l)"

text \<open>Invariant I3 of the registry: no key of the map holds an empty bucket.\<close>

definition no_empty_bucket :: "'c EventBus \<Rightarrow> bool" where
  "no_empty_bucket bus = (\<forall>T. subscribers bus T \<noteq> Some [])"

text \<open>On a bus whose counter has not wrapped around, the ids in a bucket are
  pairwise distinct and below \<^verbatim>\<open>nextId\<close>.\<close>

definition ids_fresh :: "'c EventBus \<Rightarrow> bool" where
  "ids_fresh bus =
     (\<forall>T. distinct (map wrapper_id (bucket bus T)) \<and>
          (\<forall>x \<in> set (bucket bus T). unat (wrapper_id x) < unat (nextId bus)))"

text \<open>The invariant on every live bus of a store, and the callbacks that keep
  it. A callback reaches the private map of a bus through \<^verbatim>\<open>subscribe\<close>,
  \<^verbatim>\<open>unsubscribe\<close> and \<^verbatim>\<open>publish\<close> only.\<close>

definition world_ok :: "'c world \<Rightarrow> bool" where
  "world_ok w = (\<forall>a bus. buses w a = Some bus \<longrightarrow> no_empty_bucket bus)"

definition preserves_ok :: "('c, 'v) behaviour \<Rightarrow> bool" where
  "preserves_ok run = (\<forall>c v w. world_ok w \<longrightarrow> world_ok (state_of (run c v w)))"

subsection \<open>Sequences of calls on one bus\<close>

text \<open>The calls that change a bus, in the order in which they take its lock.
  \<open>serve\<close> runs such a sequence and collects the handler ids that the calls of
  \<^verbatim>\<open>subscribe\<close> return in their tokens.\<close>

datatype 'c request = is_Subscribe: Subscribe type_index 'c | Unsubscribe type_index HandlerId

fun serve :: "addr option \<Rightarrow> 'c request list \<Rightarrow> 'c EventBus \<Rightarrow> HandlerId list \<times> 'c EventBus" where
  "serve weak_this [] bus = ([], bus)"
| "serve weak_this (Subscribe T c # rest) bus =
     (case EventBus_subscribe weak_this T c bus of
        (token, bus') \<Rightarrow>
          (case serve weak_this rest bus' of (ids, bus'') \<Rightarrow> (handlerId token # ids, bus'')))"
| "serve weak_this (Unsubscribe T hid # rest) bus =
     serve weak_this rest (EventBus_unsubscribe T hid bus)"

text \<open>\<open>churn n\<close> subscribes a callback and releases it again, \<open>n\<close> times over:
  the \<open>k\<close>-th round unsubscribes the id \<open>k\<close>, which is the id that its
  \<^verbatim>\<open>subscribe\<close> was given. The bus holds one wrapper at most at any time.\<close>

fun churn :: "nat \<Rightarrow> unit request list" where
  "churn 0 = []"
| "churn (Suc n) =
     churn n @ [Subscribe (typeid_of 0) (), Unsubscribe (typeid_of 0) (of_nat (Suc n))]"

text \<open>Calls on the bus at one address. The token that \<^verbatim>\<open>subscribe\<close> returns
  stays with the caller; \<open>CallRelease\<close> releases the token object at an address
  of the store.\<close>

datatype ('c, 'v) bus_call =
    CallSubscribe type_index 'c
  | CallPublish type_index 'v
  | CallUnsubscribe type_index HandlerId
  | CallRelease addr

fun apply_call :: "('c, 'v) behaviour \<Rightarrow> addr \<Rightarrow> ('c, 'v) bus_call \<Rightarrow> 'c world \<Rightarrow> 'c world" where
  "apply_call run this (CallSubscribe T c) w =
     (case subscribe_at this T c w of None \<Rightarrow> w | Some (token, w') \<Rightarrow> w')"
| "apply_call run this (CallPublish T v) w =
     (case EventBus_publish run this T v w of None \<Rightarrow> w | Some (calls, r) \<Rightarrow> state_of r)"
| "apply_call run this (CallUnsubscribe T hid) w = unsubscribe_at this T hid w"
| "apply_call run this (CallRelease t) w = Subscription_unsubscribe t w"

fun apply_calls ::
  "('c, 'v) behaviour \<Rightarrow> addr \<Rightarrow> ('c, 'v) bus_call list \<Rightarrow> 'c world \<Rightarrow> 'c world" where
  "apply_calls run this [] w = w"
| "apply_calls run this (c # cs) w = apply_calls run this cs (apply_call run this c w)"

subsection \<open>Concrete stores and callbacks\<close>

text \<open>Two environments for callbacks named by numbers: in \<open>quiet\<close> every
  callback returns at once; in \<open>throwing_first\<close> callback 0 throws.\<close>

definition quiet :: "(nat, nat) behaviour" where
  "quiet c v w = Returned w"

definition throwing_first :: "(nat, nat) behaviour" where
  "throwing_first c v w = (if c = 0 then Thrown w else Returned w)"

text \<open>A bus at address 0 on which callback 0 and then callback 1 were
  subscribed for the type \<open>typeid_of 0\<close>.\<close>

definition two_listeners_bus :: "nat EventBus" where
  "two_listeners_bus =
     snd (EventBus_subscribe (Some 0) (typeid_of 0) 1
       (snd (EventBus_subscribe (Some 0) (typeid_of 0) 0 EventBus_new)))"

definition two_listeners :: "nat world" where
  "two_listeners = \<lparr>buses = [0 \<mapsto> two_listeners_bus], tokens = (\<lambda>t. Subscription_default)\<rparr>"

text \<open>In \<open>resubscribing\<close>, callback 0 subscribes callback 7 for the type
  \<open>typeid_of 0\<close> on the bus at address 0 and keeps the token in the token
  object at address 3; every other callback returns at once.\<close>

definition resubscribing :: "(nat, nat) behaviour" where
  "resubscribing c v w =
     (if c = 0 then
        (case subscribe_at 0 (typeid_of 0) 7 w of
           None \<Rightarrow> Returned w
         | Some (token, w') \<Rightarrow> Returned (w'\<lparr>tokens := (tokens w')(3 := token)\<rparr>))
      else Returned w)"

text \<open>The store \<open>two_listeners\<close> with the tokens of its two subscriptions held
  in the token objects at addresses 1 and 2.\<close>

definition two_listeners_held :: "nat world" where
  "two_listeners_held =
     two_listeners\<lparr>tokens := (tokens two_listeners)
       (1 := \<lparr>weakBus = Some 0, eventType = typeid_of 0, handlerId = 1\<rparr>,
        2 := \<lparr>weakBus = Some 0, eventType = typeid_of 0, handlerId = 2\<rparr>)\<rparr>"

text \<open>A new bus at address 0 with one subscription, whose token is the token
  object at address 1.\<close>

definition one_listener_held :: "nat world" where
  "one_listener_held =
     \<lparr>buses = [0 \<mapsto> snd (EventBus_subscribe (Some 0) (typeid_of 0) 0 EventBus_new)],
      tokens = (\<lambda>t. Subscription_default)
        (1 := fst (EventBus_subscribe (Some 0) (typeid_of 0) (0::nat) EventBus_new))\<rparr>"

text \<open>In \<open>chaining\<close>, callback \<open>c\<close> subscribes callback \<open>c + 10\<close> for the type
  \<open>typeid_of 2\<close> on the bus at address 0 and keeps the token in the token
  object at address \<open>c + 10\<close>: the ids of the new wrappers tell in which order
  the callbacks ran.\<close>

definition chain_step :: "nat \<Rightarrow> nat world \<Rightarrow> nat world" where
  "chain_step c w =
     (case subscribe_at 0 (typeid_of 2) (c + 10) w of
        None \<Rightarrow> w
      | Some (token, w') \<Rightarrow> w'\<lparr>tokens := (tokens w')(c + 10 := token)\<rparr>)"

definition chaining :: "(nat, nat) behaviour" where
  "chaining c v w = Returned (chain_step c w)"

text \<open>A bus at address 0 on which callback 0 was subscribed for the type
  \<open>typeid_of 0\<close>, then callback 5, which was unsubscribed again, then
  callback 1.\<close>

definition three_served_bus :: "nat EventBus" where
  "three_served_bus =
     snd (EventBus_subscribe (Some 0) (typeid_of 0) 1
       (snd (serve (Some 0) [Subscribe (typeid_of 0) 5, Unsubscribe (typeid_of 0) 2]
         (snd (EventBus_subscribe (Some 0) (typeid_of 0) 0 EventBus_new)))))"

definition three_served :: "nat world" where
  "three_served = \<lparr>buses = [0 \<mapsto> three_served_bus], tokens = (\<lambda>t. Subscription_default)\<rparr>"

section \<open>Properties\<close>

subsection \<open>The delivery loop\<close>

lemma deliver_calls_prefix:
  "fst (deliver run v l w) = map (\<lambda>x. (x, v)) (take (length (fst (deliver run v l w))) l)"
  by (induction l arbitrary: w) (auto split: outcome.splits simp: split_beta)

lemma deliver_length_le: "length (fst (deliver run v l w)) \<le> length l"
  by (induction l arbitrary: w) (auto split: outcome.splits simp: split_beta)

lemma deliver_nonempty: "l \<noteq> [] \<Longrightarrow> fst (deliver run v l w) \<noteq> []"
  by (cases l) (auto split: outcome.splits simp: split_beta)

lemma reached_Suc:
  "reached run v l w (Suc k) = Some w' \<Longrightarrow>
     k < length l \<and> (\<exists>wk. reached run v l w k = Some wk \<and>
       run (callback (l ! k)) v wk = Returned w')"
proof (induction l arbitrary: w k)
  case Nil
  then show ?case by simp
next
  case (Cons x xs)
  show ?case
  proof (cases k)
    case 0
    then show ?thesis using Cons.prems
      by (cases xs) (auto split: outcome.splits)
  next
    case (Suc j)
    then show ?thesis using Cons.prems Cons.IH [of _ j]
      by (auto split: outcome.splits)
  qed
qed

lemma reached_step:
  "k < length l \<Longrightarrow> reached run v l w k = Some wk \<Longrightarrow>
     run (callback (l ! k)) v wk = Returned w' \<Longrightarrow> reached run v l w (Suc k) = Some w'"
proof (induction l arbitrary: w k)
  case Nil
  then show ?case by simp
next
  case (Cons x xs)
  show ?case
  proof (cases k)
    case 0
    then show ?thesis using Cons.prems by (cases xs) auto
  next
    case (Suc j)
    then show ?thesis using Cons.prems Cons.IH [of j]
      by (auto split: outcome.splits)
  qed
qed

lemma deliver_made_calls:
  "Suc k < length (fst (deliver run v l w)) \<Longrightarrow>
     \<exists>wk wk'. reached run v l w k = Some wk \<and>
       run (callback (l ! k)) v wk = Returned wk' \<and> reached run v l w (Suc k) = Some wk'"
proof (induction l arbitrary: w k)
  case Nil
  then show ?case by simp
next
  case (Cons x xs)
  from Cons.prems obtain w' where r: "run (callback x) v w = Returned w'"
    by (cases "run (callback x) v w") auto
  then have len: "Suc k < Suc (length (fst (deliver run v xs w')))"
    using Cons.prems by (simp add: split_beta)
  show ?case
  proof (cases k)
    case 0
    then show ?thesis using r by simp
  next
    case (Suc j)
    then have "Suc j < length (fst (deliver run v xs w'))" using len by simp
    from Cons.IH [OF this] show ?thesis using Suc r by simp
  qed
qed

lemma deliver_result:
  "(case snd (deliver run v l w) of
      Returned wn \<Rightarrow> length (fst (deliver run v l w)) = length l \<and>
                     reached run v l w (length l) = Some wn
    | Thrown w' \<Rightarrow> (\<exists>k wk. length (fst (deliver run v l w)) = Suc k \<and> k < length l \<and>
                     reached run v l w k = Some wk \<and>
                     run (callback (l ! k)) v wk = Thrown w'))"
proof (induction l arbitrary: w)
  case Nil
  then show ?case by simp
next
  case (Cons x xs)
  show ?case
  proof (cases "run (callback x) v w")
    case (Thrown w')
    then show ?thesis by simp
  next
    case (Returned w1)
    show ?thesis
    proof (cases "snd (deliver run v xs w1)")
      case (Returned wn)
      then show ?thesis using Cons.IH [of w1] \<open>run (callback x) v w = Returned w1\<close>
        by (simp add: split_beta)
    next
      case (Thrown w')
      then obtain k wk where "length (fst (deliver run v xs w1)) = Suc k" "k < length xs"
          "reached run v xs w1 k = Some wk" "run (callback (xs ! k)) v wk = Thrown w'"
        using Cons.IH [of w1] by auto
      then show ?thesis using Thrown \<open>run (callback x) v w = Returned w1\<close>
        by (auto simp: split_beta intro!: exI [of _ "Suc k"])
    qed
  qed
qed

lemma deliver_at:
  "i < length l \<Longrightarrow> reached run v l w i = Some wi \<Longrightarrow>
     i < length (fst (deliver run v l w)) \<and>
     (case run (callback (l ! i)) v wi of
        Thrown w' \<Rightarrow> snd (deliver run v l w) = Thrown w' \<and>
                     length (fst (deliver run v l w)) = Suc i
      | Returned w' \<Rightarrow>
          (if Suc i = length l
           then snd (deliver run v l w) = Returned w' \<and>
                length (fst (deliver run v l w)) = length l
           else Suc i < length (fst (deliver run v l w)) \<and>
                reached run v l w (Suc i) = Some w'))"
proof (induction l arbitrary: w i)
  case Nil
  then show ?case by simp
next
  case (Cons x xs)
  show ?case
  proof (cases i)
    case 0
    then have wi: "wi = w" using Cons.prems by simp
    show ?thesis
    proof (cases "run (callback x) v w")
      case (Thrown w')
      then show ?thesis using 0 wi by simp
    next
      case (Returned w')
      then show ?thesis using 0 wi deliver_nonempty [of xs run v w']
        by (cases xs) (auto simp: split_beta)
    qed
  next
    case (Suc j)
    then obtain w1 where r: "run (callback x) v w = Returned w1"
      and rj: "reached run v xs w1 j = Some wi"
      using Cons.prems by (auto split: outcome.splits)
    have "j < length xs" using Cons.prems Suc by simp
    from Cons.IH [OF this rj] show ?thesis using Suc r
      by (auto simp: split_beta split: outcome.splits if_splits)
  qed
qed

lemma reached_append:
  "reached run v (xs @ ys) w (length xs + k) =
     (case reached run v xs w (length xs) of None \<Rightarrow> None | Some w' \<Rightarrow> reached run v ys w' k)"
  by (induction xs arbitrary: w) (auto split: outcome.splits)

lemma reached_between:
  assumes "reached run v (pre @ A # mid @ B # post) w (Suc (length pre + length mid)) = Some wB"
  shows "\<exists>wA wA'. reached run v (pre @ A # mid @ B # post) w (length pre) = Some wA \<and>
           run (callback A) v wA = Returned wA' \<and>
           reached run v mid wA' (length mid) = Some wB"
proof -
  have 1: "reached run v (pre @ A # mid @ B # post) w (length pre + Suc (length mid)) = Some wB"
    using assms by simp
  then obtain wA where a: "reached run v pre w (length pre) = Some wA"
    and 2: "reached run v (A # mid @ B # post) wA (Suc (length mid)) = Some wB"
    unfolding reached_append by (auto split: option.splits)
  from 2 obtain wA' where b: "run (callback A) v wA = Returned wA'"
    and 3: "reached run v (mid @ B # post) wA' (length mid + 0) = Some wB"
    by (auto split: outcome.splits)
  from 3 have c: "reached run v mid wA' (length mid) = Some wB"
    unfolding reached_append by (auto split: option.splits)
  have "reached run v (pre @ A # mid @ B # post) w (length pre + 0) = Some wA"
    unfolding reached_append using a by simp
  then show ?thesis using b c by auto
qed

lemma publish_cases:
  "buses w this = Some bus \<Longrightarrow>
   EventBus_publish run this T v w = Some (deliver run v (bucket bus T) w)"
  by (auto simp: EventBus_publish_def bucket_def split: option.splits)

lemma distinct_count_list: "distinct ys \<Longrightarrow> y \<in> set ys \<Longrightarrow> count_list ys y = 1"
  by (induction ys) auto

lemma two_listeners_bucket:
  "bucket two_listeners_bus (typeid_of 0) =
     [\<lparr>wrapper_id = 1, callback = 0\<rparr>, \<lparr>wrapper_id = 2, callback = 1\<rparr>]"
  by (simp add: two_listeners_bus_def bucket_def EventBus_subscribe_def EventBus_new_def Let_def)

subsection \<open>Subscribe and unsubscribe on one bus\<close>

lemma bucket_subscribe:
  "bucket (snd (EventBus_subscribe wt T c bus)) T' =
     (if T' = T then bucket bus T @ [\<lparr>wrapper_id = nextId bus, callback = c\<rparr>] else bucket bus T')"
  by (simp add: EventBus_subscribe_def bucket_def Let_def)

lemma nextId_subscribe: "nextId (snd (EventBus_subscribe wt T c bus)) = nextId bus + 1"
  by (simp add: EventBus_subscribe_def Let_def)

lemma token_subscribe:
  "fst (EventBus_subscribe wt T c bus) = \<lparr>weakBus = wt, eventType = T, handlerId = nextId bus\<rparr>"
  by (simp add: EventBus_subscribe_def Let_def)

lemma bucket_unsubscribe:
  "bucket (EventBus_unsubscribe T hid bus) T' =
     (if T' = T then filter (\<lambda>x. wrapper_id x \<noteq> hid) (bucket bus T) else bucket bus T')"
  by (auto simp: EventBus_unsubscribe_def bucket_def Let_def split: option.splits)

lemma nextId_unsubscribe: "nextId (EventBus_unsubscribe T hid bus) = nextId bus"
  by (auto simp: EventBus_unsubscribe_def Let_def split: option.splits)

lemma subscribe_at_Some:
  assumes "buses w this = Some bus" and "subscribe_at this T c w = Some (token, w1)"
  shows "token = \<lparr>weakBus = Some this, eventType = T, handlerId = nextId bus\<rparr> \<and>
         w1 = w\<lparr>buses := (buses w)(this \<mapsto> snd (EventBus_subscribe (Some this) T c bus))\<rparr>"
  using assms token_subscribe[of "Some this" T c bus]
  by (auto simp: subscribe_at_def split: prod.splits)

lemma publish_calls_subset:
  assumes "buses w this = Some bus" and "EventBus_publish run this T event w = Some (calls, r)"
  shows "set (map fst calls) \<subseteq> set (bucket bus T)"
proof -
  have c: "calls = fst (deliver run event (bucket bus T) w)"
    using assms by (simp add: publish_cases)
  have "calls = map (\<lambda>x. (x, event)) (take (length calls) (bucket bus T))"
    unfolding c by (rule deliver_calls_prefix)
  then have "map fst calls = take (length calls) (bucket bus T)"
    by (metis (no_types, lifting) map_map comp_def fst_conv map_idI)
  then show ?thesis
    by (metis set_take_subset)
qed

lemma bucket_new: "bucket EventBus_new T = []"
  by (simp add: bucket_def EventBus_new_def)

lemma nextId_new: "nextId EventBus_new = 1"
  by (simp add: EventBus_new_def)

lemma publish_in_order:
  assumes alive: "buses w this = Some bus"
    and pub: "EventBus_publish run this T event w = Some (calls, r)"
  shows "calls = map (\<lambda>x. (x, event)) (take (length calls) (bucket bus T)) \<and>
         (\<forall>k. Suc k < length calls \<longrightarrow>
            (\<exists>wk wk'. reached run event (bucket bus T) w k = Some wk \<and>
               run (callback (bucket bus T ! k)) event wk = Returned wk' \<and>
               reached run event (bucket bus T) w (Suc k) = Some wk')) \<and>
         (case r of
            Returned wn \<Rightarrow> length calls = length (bucket bus T) \<and>
                           reached run event (bucket bus T) w (length (bucket bus T)) = Some wn
          | Thrown w' \<Rightarrow> (\<exists>k wk. length calls = Suc k \<and> k < length (bucket bus T) \<and>
                           reached run event (bucket bus T) w k = Some wk \<and>
                           run (callback (bucket bus T ! k)) event wk = Thrown w'))"
proof -
  have c: "calls = fst (deliver run event (bucket bus T) w)"
    and r: "r = snd (deliver run event (bucket bus T) w)"
    using alive pub by (simp_all add: publish_cases)
  show ?thesis
    unfolding c r
    using deliver_calls_prefix [of run event "bucket bus T" w]
      deliver_made_calls [of _ run event "bucket bus T" w]
      deliver_result [of run event "bucket bus T" w]
    by blast
qed

subsection \<open>Buckets that a sequence of calls leaves\<close>

lemma ids_fresh_new: "ids_fresh EventBus_new"
  by (simp add: ids_fresh_def bucket_new)

lemma ids_fresh_unsubscribe: "ids_fresh bus \<Longrightarrow> ids_fresh (EventBus_unsubscribe T hid bus)"
  by (auto simp: ids_fresh_def bucket_unsubscribe nextId_unsubscribe distinct_map_filter)

lemma ids_fresh_subscribe:
  assumes "ids_fresh bus" and "Suc (unat (nextId bus)) < 2 ^ 64"
  shows "ids_fresh (snd (EventBus_subscribe wt T c bus))"
proof -
  have nx: "unat (nextId bus + 1) = Suc (unat (nextId bus))"
    using assms(2) by (simp add: unat_word_ariths)
  have old: "distinct (map wrapper_id (bucket bus T'))"
    and below: "\<And>x. x \<in> set (bucket bus T') \<Longrightarrow> unat (wrapper_id x) < unat (nextId bus)"
    for T'
    using assms(1) by (simp_all add: ids_fresh_def)
  have new: "nextId bus \<notin> wrapper_id ` set (bucket bus T)"
    using below [of _ T] by fastforce
  show ?thesis
    unfolding ids_fresh_def
  proof (intro allI conjI ballI)
    fix T'
    show "distinct (map wrapper_id (bucket (snd (EventBus_subscribe wt T c bus)) T'))"
      using old [of T'] old [of T] new by (simp add: bucket_subscribe)
  next
    fix T' x
    assume "x \<in> set (bucket (snd (EventBus_subscribe wt T c bus)) T')"
    then have "x \<in> set (bucket bus T') \<or> wrapper_id x = nextId bus"
      by (auto simp: bucket_subscribe split: if_splits)
    then show "unat (wrapper_id x) < unat (nextId (snd (EventBus_subscribe wt T c bus)))"
      using below [of x T'] by (auto simp: nextId_subscribe nx)
  qed
qed

lemma serve_ids_fresh:
  "ids_fresh bus \<Longrightarrow> unat (nextId bus) + length (filter is_Subscribe rs) < 2 ^ 64 \<Longrightarrow>
     ids_fresh (snd (serve wt rs bus))"
proof (induction rs arbitrary: bus)
  case Nil
  then show ?case by simp
next
  case (Cons rq rs)
  show ?case
  proof (cases rq)
    case (Subscribe T c)
    let ?b = "snd (EventBus_subscribe wt T c bus)"
    have s: "Suc (unat (nextId bus)) < 2 ^ 64" using Cons.prems(2) Subscribe by simp
    then have nx: "unat (nextId ?b) = Suc (unat (nextId bus))"
      by (simp add: nextId_subscribe unat_word_ariths)
    have "ids_fresh ?b" using Cons.prems(1) s by (rule ids_fresh_subscribe)
    moreover have "unat (nextId ?b) + length (filter is_Subscribe rs) < 2 ^ 64"
      using Cons.prems(2) Subscribe nx by simp
    ultimately have "ids_fresh (snd (serve wt rs ?b))" by (rule Cons.IH)
    then show ?thesis using Subscribe by (simp add: split_beta)
  next
    case (Unsubscribe T hid)
    have "ids_fresh (EventBus_unsubscribe T hid bus)"
      using Cons.prems(1) by (rule ids_fresh_unsubscribe)
    moreover have "unat (nextId (EventBus_unsubscribe T hid bus)) +
        length (filter is_Subscribe rs) < 2 ^ 64"
      using Cons.prems(2) Unsubscribe by (simp add: nextId_unsubscribe)
    ultimately show ?thesis using Unsubscribe Cons.IH by simp
  qed
qed

lemma served_bucket_distinct:
  assumes "Suc (length (filter is_Subscribe rs)) < 2 ^ 64"
  shows "distinct (bucket (snd (serve wt rs EventBus_new)) T)"
proof -
  have "unat (nextId (EventBus_new :: 'a EventBus)) + length (filter is_Subscribe rs) < 2 ^ 64"
    using assms by (simp add: EventBus_new_def)
  with ids_fresh_new have "ids_fresh (snd (serve wt rs (EventBus_new :: 'a EventBus)))"
    by (rule serve_ids_fresh)
  then have "distinct (map wrapper_id (bucket (snd (serve wt rs EventBus_new)) T))"
    by (simp add: ids_fresh_def)
  then show ?thesis by (simp add: distinct_map)
qed

lemma serve_bucket:
  "\<exists>P added. bucket (snd (serve wt rs bus)) T = filter P (bucket bus T) @ added \<and>
     (\<forall>x. Unsubscribe T (wrapper_id x) \<notin> set rs \<longrightarrow> P x)"
proof (induction rs arbitrary: bus)
  case Nil
  have "bucket (snd (serve wt [] bus)) T = filter (\<lambda>x. True) (bucket bus T) @ []" by simp
  then show ?case by blast
next
  case (Cons rq rs)
  show ?case
  proof (cases rq)
    case (Subscribe T' c)
    let ?b = "snd (EventBus_subscribe wt T' c bus)"
    obtain P added where
      1: "bucket (snd (serve wt rs ?b)) T = filter P (bucket ?b T) @ added"
      and 2: "\<forall>x. Unsubscribe T (wrapper_id x) \<notin> set rs \<longrightarrow> P x"
      using Cons.IH [of ?b] by blast
    have s: "snd (serve wt (rq # rs) bus) = snd (serve wt rs ?b)"
      using Subscribe by (simp add: split_beta)
    have "\<exists>extra. bucket ?b T = bucket bus T @ extra"
      by (cases "T = T'") (simp_all add: bucket_subscribe)
    then obtain extra where "bucket ?b T = bucket bus T @ extra" by blast
    then have "bucket (snd (serve wt (rq # rs) bus)) T =
        filter P (bucket bus T) @ (filter P extra @ added)"
      using 1 s by simp
    moreover have "\<forall>x. Unsubscribe T (wrapper_id x) \<notin> set (rq # rs) \<longrightarrow> P x"
      using 2 by simp
    ultimately show ?thesis by blast
  next
    case (Unsubscribe T' hid)
    let ?b = "EventBus_unsubscribe T' hid bus"
    obtain P added where
      1: "bucket (snd (serve wt rs ?b)) T = filter P (bucket ?b T) @ added"
      and 2: "\<forall>x. Unsubscribe T (wrapper_id x) \<notin> set rs \<longrightarrow> P x"
      using Cons.IH [of ?b] by blast
    have s: "snd (serve wt (rq # rs) bus) = snd (serve wt rs ?b)"
      using Unsubscribe by simp
    show ?thesis
    proof (cases "T' = T")
      case True
      have "bucket (snd (serve wt (rq # rs) bus)) T =
          filter (\<lambda>x. wrapper_id x \<noteq> hid \<and> P x) (bucket bus T) @ added"
        using 1 s True by (simp add: bucket_unsubscribe conj_commute)
      moreover have "\<forall>x. Unsubscribe T (wrapper_id x) \<notin> set (rq # rs) \<longrightarrow>
          (wrapper_id x \<noteq> hid \<and> P x)"
        using 2 Unsubscribe True by auto
      ultimately show ?thesis by blast
    next
      case False
      have "bucket (snd (serve wt (rq # rs) bus)) T = filter P (bucket bus T) @ added"
        using 1 s False by (simp add: bucket_unsubscribe)
      moreover have "\<forall>x. Unsubscribe T (wrapper_id x) \<notin> set (rq # rs) \<longrightarrow> P x"
        using 2 by simp
      ultimately show ?thesis by blast
    qed
  qed
qed

lemma serve_append:
  "serve wt (xs @ ys) bus =
     (fst (serve wt xs bus) @ fst (serve wt ys (snd (serve wt xs bus))),
      snd (serve wt ys (snd (serve wt xs bus))))"
proof (induction xs arbitrary: bus)
  case Nil
  then show ?case by simp
next
  case (Cons rq xs)
  then show ?case by (cases rq) (simp_all add: split_beta)
qed

lemma three_served_bucket:
  "bucket three_served_bus (typeid_of 0) =
     [\<lparr>wrapper_id = 1, callback = 0\<rparr>, \<lparr>wrapper_id = 3, callback = 1\<rparr>]"
  by (simp add: three_served_bus_def split_beta bucket_subscribe bucket_unsubscribe bucket_new
      nextId_subscribe nextId_unsubscribe token_subscribe nextId_new)

lemma three_served_nextId: "nextId three_served_bus = 4"
  by (simp add: three_served_bus_def split_beta nextId_subscribe nextId_unsubscribe nextId_new)

lemma three_served_other: "bucket three_served_bus (typeid_of 2) = []"
  by (simp add: three_served_bus_def split_beta bucket_subscribe bucket_unsubscribe bucket_new)

lemma chain_step_bus:
  "buses w 0 = Some bus \<Longrightarrow>
     buses (chain_step c w) 0 = Some (snd (EventBus_subscribe (Some 0) (typeid_of 2) (c + 10) bus))"
  by (simp add: chain_step_def subscribe_at_def split_beta)

lemma three_served_served:
  "three_served_bus =
     snd (serve (Some 0) [Subscribe (typeid_of 0) 0, Subscribe (typeid_of 0) 5,
                          Unsubscribe (typeid_of 0) 2, Subscribe (typeid_of 0) 1] EventBus_new)"
  by (simp add: three_served_bus_def split_beta)

subsection \<open>C1: a subscribed callback is called once, with the event\<close>

text \<open>
  C1, as stated, asks that every callback in the bucket when \<^verbatim>\<open>publish(T, v)\<close>
  starts is called exactly once with \<open>v\<close>. The loop of \<^verbatim>\<open>publish\<close> has no
  handler, so a callback that throws ends the call: on the bus \<open>two_listeners\<close>,
  with callback 0 throwing, the call made is that of callback 0 alone, and
  callback 1, subscribed before the call, is never reached.
\<close>

theorem publish_skips_after_throw:
  "\<lparr>wrapper_id = 2, callback = 1\<rparr> \<in> set (bucket two_listeners_bus (typeid_of 0)) \<and>
   buses two_listeners 0 = Some two_listeners_bus \<and>
   EventBus_publish throwing_first 0 (typeid_of 0) 5 two_listeners =
     Some ([(\<lparr>wrapper_id = 1, callback = 0\<rparr>, 5)], Thrown two_listeners) \<and>
   count_list (map fst (fst (the (EventBus_publish throwing_first 0 (typeid_of 0) 5 two_listeners))))
     \<lparr>wrapper_id = 2, callback = 1\<rparr> = 0"
  by (simp add: two_listeners_bucket publish_cases two_listeners_def throwing_first_def)

text \<open>
  C1, amended: let the bus at \<open>this\<close> be alive and let the wrapper at position \<open>i\<close>
  of the bucket of \<open>T\<close> be subscribed when \<^verbatim>\<open>publish(T, event)\<close> starts. If every
  callback before it in the bucket returns normally when this publish calls it,
  so that the callbacks before it leave a store \<open>wi\<close>, then the publish calls
  the wrapper: its call is the \<open>i\<close>-th of that publish, with the value \<open>event\<close>,
  and it is made on \<open>wi\<close>. The publish goes on with what the call gives: an
  exception ends the publish with that exception, the store that the last
  callback returns is the one the publish returns, and any other callback hands
  its store to the next call. The calls made are those of an initial part of the
  bucket, one for each position, so that a wrapper that occurs once in the
  bucket (as every wrapper does until \<^verbatim>\<open>nextId\<close> wraps around, by
  \<open>served_bucket_distinct\<close>) is called exactly once.
\<close>

theorem publish_invokes_each_subscriber:
  assumes alive: "buses w this = Some bus"
    and pos: "i < length (bucket bus T)"
    and earlier: "reached run event (bucket bus T) w i = Some wi"
  shows "\<exists>calls r. EventBus_publish run this T event w = Some (calls, r) \<and>
           i < length calls \<and> calls ! i = (bucket bus T ! i, event) \<and>
           calls = map (\<lambda>x. (x, event)) (take (length calls) (bucket bus T)) \<and>
           (case run (callback (bucket bus T ! i)) event wi of
              Thrown w' \<Rightarrow> r = Thrown w' \<and> length calls = Suc i
            | Returned w' \<Rightarrow>
                (if Suc i = length (bucket bus T)
                 then r = Returned w' \<and> length calls = length (bucket bus T)
                 else Suc i < length calls \<and>
                      reached run event (bucket bus T) w (Suc i) = Some w')) \<and>
           (distinct (bucket bus T) \<longrightarrow> count_list (map fst calls) (bucket bus T ! i) = 1)"
proof -
  let ?l = "bucket bus T"
  let ?calls = "fst (deliver run event ?l w)"
  let ?r = "snd (deliver run event ?l w)"
  have pub: "EventBus_publish run this T event w = Some (?calls, ?r)"
    using alive by (simp add: publish_cases)
  have at_i: "i < length ?calls \<and>
     (case run (callback (?l ! i)) event wi of
        Thrown w' \<Rightarrow> ?r = Thrown w' \<and> length ?calls = Suc i
      | Returned w' \<Rightarrow>
          (if Suc i = length ?l then ?r = Returned w' \<and> length ?calls = length ?l
           else Suc i < length ?calls \<and> reached run event ?l w (Suc i) = Some w'))"
    using pos earlier by (rule deliver_at)
  then have reach: "i < length ?calls" by simp
  have pre: "?calls = map (\<lambda>x. (x, event)) (take (length ?calls) ?l)"
    by (rule deliver_calls_prefix)
  have le: "length ?calls \<le> length ?l"
    by (rule deliver_length_le)
  have at: "?calls ! i = (?l ! i, event)"
  proof -
    have "?calls ! i = map (\<lambda>x. (x, event)) (take (length ?calls) ?l) ! i"
      using pre by simp
    also have "\<dots> = (?l ! i, event)"
      using reach le by simp
    finally show ?thesis .
  qed
  have once: "count_list (map fst ?calls) (?l ! i) = 1" if d: "distinct ?l"
  proof -
    have eq: "map fst ?calls = take (length ?calls) ?l"
    proof -
      have "map fst ?calls = map fst (map (\<lambda>x. (x, event)) (take (length ?calls) ?l))"
        using pre by simp
      then show ?thesis by (simp add: comp_def)
    qed
    have "?l ! i \<in> set (take (length ?calls) ?l)"
      using reach le by (auto simp: in_set_conv_nth intro!: exI[of _ i])
    moreover have "distinct (take (length ?calls) ?l)"
      using d by simp
    ultimately show ?thesis
      unfolding eq by (simp add: distinct_count_list)
  qed
  show ?thesis
    using pub at_i at pre once by blast
qed

text \<open>On \<open>three_served\<close> with \<open>chaining\<close>: callback 1 is called on the store
  that callback 0 left, and the publish returns the store that callback 1
  returns from it.\<close>

theorem publish_invokes_each_subscriber_witness:
  "\<exists>calls. EventBus_publish chaining 0 (typeid_of 0) 5 three_served =
       Some (calls, Returned (chain_step 1 (chain_step 0 three_served))) \<and>
     calls ! 1 = (\<lparr>wrapper_id = 3, callback = 1\<rparr>, 5) \<and>
     length calls = 2 \<and>
     count_list (map fst calls) \<lparr>wrapper_id = 3, callback = 1\<rparr> = 1"
proof -
  let ?l = "bucket three_served_bus (typeid_of 0)"
  let ?w1 = "chain_step 0 three_served"
  have a: "buses three_served 0 = Some three_served_bus"
    by (simp add: three_served_def)
  have b: "1 < length ?l"
    by (simp add: three_served_bucket)
  have c: "reached chaining 5 ?l three_served 1 = Some ?w1"
    by (simp add: three_served_bucket chaining_def)
  have d: "distinct ?l"
    unfolding three_served_served by (rule served_bucket_distinct) simp
  have e: "chaining (callback (?l ! 1)) 5 ?w1 = Returned (chain_step 1 ?w1)"
    by (simp add: three_served_bucket chaining_def)
  have f: "Suc 1 = length ?l" by (simp add: three_served_bucket)
  obtain calls r where
    p: "EventBus_publish chaining 0 (typeid_of 0) 5 three_served = Some (calls, r)"
    and at: "calls ! 1 = (?l ! 1, 5)"
    and ex: "(case chaining (callback (?l ! 1)) 5 ?w1 of
              Thrown w' \<Rightarrow> r = Thrown w' \<and> length calls = Suc 1
            | Returned w' \<Rightarrow>
                (if Suc 1 = length ?l then r = Returned w' \<and> length calls = length ?l
                 else Suc 1 < length calls \<and> reached chaining 5 ?l three_served (Suc 1) = Some w'))"
    and cnt: "distinct ?l \<longrightarrow> count_list (map fst calls) (?l ! 1) = 1"
    using publish_invokes_each_subscriber [OF a b c] by blast
  have r: "r = Returned (chain_step 1 ?w1)" and len: "length calls = length ?l"
    using ex unfolding e using f by simp_all
  have "count_list (map fst calls) (?l ! 1) = 1" using cnt d by blast
  then show ?thesis
    using p at r len by (simp add: three_served_bucket)
qed

subsection \<open>C2: a callback subscribed after the snapshot is not called\<close>



subsection \<open>C3: callbacks are called in the order of their subscription\<close>

text \<open>
  C3: subscribe \<open>a\<close> for \<open>T\<close> on a bus, let any calls of \<^verbatim>\<open>subscribe\<close> and
  \<^verbatim>\<open>unsubscribe\<close> follow, subscribe \<open>b\<close> for \<open>T\<close>, let any such calls follow
  again, none of them removing the two subscriptions, and publish one event of
  type \<open>T\<close>. The bucket then holds the wrapper of \<open>a\<close> before that of \<open>b\<close>, and
  when the publish calls \<open>b\<close> it has called \<open>a\<close> before: \<open>a\<close> has returned, and
  \<open>b\<close> is called on the store that the callbacks between them made of the store
  \<open>a\<close> returned. In general the calls of a publish are those of an initial
  part of the bucket, which holds the wrappers in the order of their
  subscription; each call but the last has returned, the next one is made on
  the store it returned, and the publish ends with what the last call gives:
  the store it returns when it is the last of the bucket, or its exception.
\<close>

theorem publish_follows_subscribe_order:
  assumes subA: "EventBus_subscribe wt T a bus0 = (ta, bus1)"
    and between: "serve wt rs2 bus1 = (ids2, bus2)"
    and subB: "EventBus_subscribe wt T b bus2 = (tb, bus3)"
    and after: "serve wt rs3 bus3 = (ids3, bus4)"
    and keptA: "Unsubscribe T (handlerId ta) \<notin> set (rs2 @ rs3)"
    and keptB: "Unsubscribe T (handlerId tb) \<notin> set rs3"
    and alive: "buses w this = Some bus4"
    and pub: "EventBus_publish run this T event w = Some (calls, r)"
  shows "(\<exists>pre mid post.
            bucket bus4 T = pre @ \<lparr>wrapper_id = handlerId ta, callback = a\<rparr> # mid @
                                  \<lparr>wrapper_id = handlerId tb, callback = b\<rparr> # post \<and>
            (Suc (length pre + length mid) < length calls \<longrightarrow>
               calls ! length pre = (\<lparr>wrapper_id = handlerId ta, callback = a\<rparr>, event) \<and>
               calls ! Suc (length pre + length mid) =
                 (\<lparr>wrapper_id = handlerId tb, callback = b\<rparr>, event) \<and>
               (\<exists>wA wA' wB.
                  reached run event (bucket bus4 T) w (length pre) = Some wA \<and>
                  run a event wA = Returned wA' \<and>
                  reached run event mid wA' (length mid) = Some wB \<and>
                  reached run event (bucket bus4 T) w (Suc (length pre + length mid)) = Some wB))) \<and>
         calls = map (\<lambda>x. (x, event)) (take (length calls) (bucket bus4 T)) \<and>
         (\<forall>k. Suc k < length calls \<longrightarrow>
            (\<exists>wk wk'. reached run event (bucket bus4 T) w k = Some wk \<and>
               run (callback (bucket bus4 T ! k)) event wk = Returned wk' \<and>
               reached run event (bucket bus4 T) w (Suc k) = Some wk')) \<and>
         (case r of
            Returned wn \<Rightarrow> length calls = length (bucket bus4 T) \<and>
                           reached run event (bucket bus4 T) w (length (bucket bus4 T)) = Some wn
          | Thrown w' \<Rightarrow> (\<exists>k wk. length calls = Suc k \<and> k < length (bucket bus4 T) \<and>
                           reached run event (bucket bus4 T) w k = Some wk \<and>
                           run (callback (bucket bus4 T ! k)) event wk = Thrown w'))"
proof -
  let ?A = "\<lparr>wrapper_id = handlerId ta, callback = a\<rparr>"
  let ?B = "\<lparr>wrapper_id = handlerId tb, callback = b\<rparr>"
  let ?l = "bucket bus4 T"
  have ta: "handlerId ta = nextId bus0" and b1: "bus1 = snd (EventBus_subscribe wt T a bus0)"
    using subA token_subscribe [of wt T a bus0] by auto
  have tb: "handlerId tb = nextId bus2" and b3: "bus3 = snd (EventBus_subscribe wt T b bus2)"
    using subB token_subscribe [of wt T b bus2] by auto
  have b2: "bus2 = snd (serve wt rs2 bus1)" and b4: "bus4 = snd (serve wt rs3 bus3)"
    using between after by simp_all
  have l1: "bucket bus1 T = bucket bus0 T @ [?A]"
    by (simp add: b1 bucket_subscribe ta)
  obtain P2 add2 where
    l2: "bucket bus2 T = filter P2 (bucket bus1 T) @ add2"
    and p2: "\<forall>x. Unsubscribe T (wrapper_id x) \<notin> set rs2 \<longrightarrow> P2 x"
    unfolding b2 using serve_bucket [of wt rs2 bus1 T] by blast
  have "P2 ?A" using p2 keptA by simp
  then have l2': "bucket bus2 T = filter P2 (bucket bus0 T) @ ?A # add2"
    using l2 l1 by simp
  have l3: "bucket bus3 T = filter P2 (bucket bus0 T) @ ?A # add2 @ [?B]"
    by (simp add: b3 bucket_subscribe tb l2')
  obtain P3 add3 where
    l4: "bucket bus4 T = filter P3 (bucket bus3 T) @ add3"
    and p3: "\<forall>x. Unsubscribe T (wrapper_id x) \<notin> set rs3 \<longrightarrow> P3 x"
    unfolding b4 using serve_bucket [of wt rs3 bus3 T] by blast
  have "P3 ?A" "P3 ?B" using p3 keptA keptB by simp_all
  then have "?l = filter P3 (filter P2 (bucket bus0 T)) @ ?A # filter P3 add2 @ ?B # add3"
    using l4 l3 by simp
  then obtain pre mid post where split: "?l = pre @ ?A # mid @ ?B # post"
    by blast
  note ord = publish_in_order [OF alive pub]
  have pre_calls: "calls = map (\<lambda>x. (x, event)) (take (length calls) ?l)"
    using ord by blast
  have made: "calls ! length pre = (?A, event) \<and>
      calls ! Suc (length pre + length mid) = (?B, event) \<and>
      (\<exists>wA wA' wB.
         reached run event ?l w (length pre) = Some wA \<and>
         run a event wA = Returned wA' \<and>
         reached run event mid wA' (length mid) = Some wB \<and>
         reached run event ?l w (Suc (length pre + length mid)) = Some wB)"
    if long: "Suc (length pre + length mid) < length calls"
  proof -
    have c: "calls = fst (deliver run event ?l w)"
      using alive pub by (simp add: publish_cases)
    have le: "length calls \<le> length ?l"
      unfolding c by (rule deliver_length_le)
    have nth: "calls ! k = (?l ! k, event)" if "k < length calls" for k
    proof -
      have "calls ! k = map (\<lambda>x. (x, event)) (take (length calls) ?l) ! k"
        using pre_calls by simp
      also have "\<dots> = (?l ! k, event)" using that le by simp
      finally show ?thesis .
    qed
    have "?l ! length pre = ?A"
      unfolding split by simp
    then have cA: "calls ! length pre = (?A, event)"
      using nth [of "length pre"] long by simp
    have "?l ! Suc (length pre + length mid) = ?B"
      unfolding split by (simp add: nth_append)
    then have cB: "calls ! Suc (length pre + length mid) = (?B, event)"
      using nth [of "Suc (length pre + length mid)"] long by simp
    have "\<exists>wk wk'. reached run event ?l w (length pre + length mid) = Some wk \<and>
               run (callback (?l ! (length pre + length mid))) event wk = Returned wk' \<and>
               reached run event ?l w (Suc (length pre + length mid)) = Some wk'"
      using ord long by blast
    then obtain wB where rB: "reached run event ?l w (Suc (length pre + length mid)) = Some wB"
      by blast
    have rB': "reached run event (pre @ ?A # mid @ ?B # post) w
        (Suc (length pre + length mid)) = Some wB"
      using rB unfolding split .
    from reached_between [OF rB'] obtain wA wA' where
      x: "reached run event (pre @ ?A # mid @ ?B # post) w (length pre) = Some wA"
      and y: "run (callback ?A) event wA = Returned wA'"
      and z: "reached run event mid wA' (length mid) = Some wB"
      by blast
    have x': "reached run event ?l w (length pre) = Some wA"
      unfolding split by (rule x)
    have y': "run a event wA = Returned wA'"
      using y by simp
    show ?thesis using cA cB x' y' z rB by blast
  qed
  have first: "\<exists>pre mid post.
            ?l = pre @ ?A # mid @ ?B # post \<and>
            (Suc (length pre + length mid) < length calls \<longrightarrow>
               calls ! length pre = (?A, event) \<and>
               calls ! Suc (length pre + length mid) = (?B, event) \<and>
               (\<exists>wA wA' wB.
                  reached run event ?l w (length pre) = Some wA \<and>
                  run a event wA = Returned wA' \<and>
                  reached run event mid wA' (length mid) = Some wB \<and>
                  reached run event ?l w (Suc (length pre + length mid)) = Some wB))"
    using split made by blast
  show ?thesis
    using first ord by (rule conjI)
qed

text \<open>On \<open>three_served\<close> with \<open>chaining\<close>: callback 0, subscribed first, is
  given the id 4 for the wrapper it subscribes, and callback 1 the id 5.\<close>

theorem publish_follows_subscribe_order_witness:
  "EventBus_publish chaining 0 (typeid_of 0) 5 three_served =
     Some ([(\<lparr>wrapper_id = 1, callback = 0\<rparr>, 5), (\<lparr>wrapper_id = 3, callback = 1\<rparr>, 5)],
           Returned (chain_step 1 (chain_step 0 three_served))) \<and>
   reached chaining 5 (bucket three_served_bus (typeid_of 0)) three_served 2 =
     Some (chain_step 1 (chain_step 0 three_served)) \<and>
   bucket (the (buses (chain_step 1 (chain_step 0 three_served)) 0)) (typeid_of 2) =
     [\<lparr>wrapper_id = 4, callback = 10\<rparr>, \<lparr>wrapper_id = 5, callback = 11\<rparr>]"
proof -
  let ?T = "typeid_of 0"
  let ?rs2 = "[Subscribe ?T 5, Unsubscribe ?T 2] :: nat request list"
  let ?s1 = "EventBus_subscribe (Some 0) ?T (0::nat) EventBus_new"
  let ?s2 = "serve (Some 0) ?rs2 (snd ?s1)"
  let ?s3 = "EventBus_subscribe (Some 0) ?T (1::nat) (snd ?s2)"
  let ?wn = "chain_step 1 (chain_step 0 three_served)"
  let ?calls = "[(\<lparr>wrapper_id = 1, callback = 0::nat\<rparr>, 5::nat), (\<lparr>wrapper_id = 3, callback = 1\<rparr>, 5)]"
  have bus4: "three_served_bus = snd ?s3"
    by (simp add: three_served_bus_def)
  have subA: "EventBus_subscribe (Some 0) ?T 0 EventBus_new = (fst ?s1, snd ?s1)" by simp
  have between: "serve (Some 0) ?rs2 (snd ?s1) = (fst ?s2, snd ?s2)" by simp
  have subB: "EventBus_subscribe (Some 0) ?T 1 (snd ?s2) = (fst ?s3, three_served_bus)"
    by (simp add: bus4)
  have after: "serve (Some 0) [] three_served_bus = ([], three_served_bus)" by simp
  have keptA: "Unsubscribe ?T (handlerId (fst ?s1)) \<notin> set (?rs2 @ [])"
    by (simp add: token_subscribe nextId_new)
  have keptB: "Unsubscribe ?T (handlerId (fst ?s3)) \<notin> set []" by simp
  have alive: "buses three_served 0 = Some three_served_bus"
    by (simp add: three_served_def)
  have pub: "EventBus_publish chaining 0 ?T 5 three_served = Some (?calls, Returned ?wn)"
    by (simp add: publish_cases [OF alive] three_served_bucket chaining_def)
  have "case Returned ?wn of
            Returned wn \<Rightarrow> length ?calls = length (bucket three_served_bus ?T) \<and>
                reached chaining 5 (bucket three_served_bus ?T) three_served
                  (length (bucket three_served_bus ?T)) = Some wn
          | Thrown w' \<Rightarrow> (\<exists>k wk. length ?calls = Suc k \<and> k < length (bucket three_served_bus ?T) \<and>
                reached chaining 5 (bucket three_served_bus ?T) three_served k = Some wk \<and>
                chaining (callback (bucket three_served_bus ?T ! k)) 5 wk = Thrown w')"
    using publish_follows_subscribe_order [OF subA between subB after keptA keptB alive pub]
    by blast
  then have "reached chaining 5 (bucket three_served_bus ?T) three_served
                  (length (bucket three_served_bus ?T)) = Some ?wn"
    by (simp only: outcome.case)
  moreover have "length (bucket three_served_bus ?T) = 2"
    by (simp add: three_served_bucket)
  ultimately have r: "reached chaining 5 (bucket three_served_bus ?T) three_served 2 = Some ?wn"
    by (simp only:)
  have b1: "buses (chain_step 0 three_served) 0 =
      Some (snd (EventBus_subscribe (Some 0) (typeid_of 2) 10 three_served_bus))"
    using chain_step_bus [OF alive, of 0] by simp
  have b2: "buses ?wn 0 =
      Some (snd (EventBus_subscribe (Some 0) (typeid_of 2) 11
        (snd (EventBus_subscribe (Some 0) (typeid_of 2) 10 three_served_bus))))"
    using chain_step_bus [OF b1, of 1] by simp
  have f: "bucket (the (buses ?wn 0)) (typeid_of 2) =
     [\<lparr>wrapper_id = 4, callback = 10\<rparr>, \<lparr>wrapper_id = 5, callback = 11\<rparr>]"
    unfolding b2 option.sel
    by (simp add: bucket_subscribe nextId_subscribe three_served_other three_served_nextId)
  show ?thesis using pub r f by (intro conjI)
qed

subsection \<open>C4: handler ids\<close>

lemma serve_ids:
  "fst (serve wt rs bus) =
     map (\<lambda>k. nextId bus + of_nat k) [0..<length (filter is_Subscribe rs)]"
proof (induction rs arbitrary: bus)
  case Nil
  then show ?case by simp
next
  case (Cons rq rs)
  show ?case
  proof (cases rq)
    case (Subscribe T c)
    have "fst (serve wt (rq # rs) bus) =
            nextId bus # fst (serve wt rs (snd (EventBus_subscribe wt T c bus)))"
      using token_subscribe [of wt T c bus] by (simp add: Subscribe split_beta)
    also have "\<dots> = nextId bus #
        map (\<lambda>k. nextId bus + 1 + of_nat k) [0..<length (filter is_Subscribe rs)]"
      by (simp add: Cons.IH nextId_subscribe)
    also have "\<dots> = map (\<lambda>k. nextId bus + of_nat k) [0..<Suc (length (filter is_Subscribe rs))]"
      by (simp add: map_upt_Suc add.assoc del: upt_Suc)
    finally show ?thesis by (simp add: Subscribe del: upt_Suc)
  next
    case (Unsubscribe T hid)
    then show ?thesis by (simp add: Cons.IH nextId_unsubscribe)
  qed
qed

lemma unat_handler: "n < 2 ^ 64 \<Longrightarrow> unat (of_nat n :: HandlerId) = n"
  by (simp add: unat_of_nat)

text \<open>
  C4, amended: in a sequence of calls on a new bus with fewer than \<open>2 ^ 64\<close> calls
  of \<^verbatim>\<open>subscribe\<close>, the \<open>k\<close>-th of them is given the id \<open>k\<close>: the ids assigned are
  strictly increasing, no id is assigned twice, and 0 is not assigned.
\<close>

theorem handler_ids_increase:
  assumes few: "length (filter is_Subscribe rs) < 2 ^ 64"
  shows "fst (serve wt rs EventBus_new) =
           map (\<lambda>k. of_nat (Suc k)) [0..<length (filter is_Subscribe rs)] \<and>
         sorted_wrt (<) (fst (serve wt rs EventBus_new)) \<and>
         distinct (fst (serve wt rs EventBus_new)) \<and>
         0 \<notin> set (fst (serve wt rs EventBus_new))"
proof -
  let ?n = "length (filter is_Subscribe rs)"
  let ?ids = "fst (serve wt rs (EventBus_new :: 'a EventBus))"
  have ids: "?ids = map (\<lambda>k. of_nat (Suc k)) [0..<?n]"
    by (simp add: serve_ids EventBus_new_def)
  have val: "unat (?ids ! i) = Suc i" if "i < ?n" for i
  proof -
    have "Suc i < 2 ^ 64" using that few by simp
    then have "unat (of_nat (Suc i) :: HandlerId) = Suc i" by (rule unat_handler)
    then show ?thesis using that by (simp only: ids) simp
  qed
  have len: "length ?ids = ?n" by (simp only: ids) simp
  have srt: "sorted_wrt (<) ?ids"
    unfolding sorted_wrt_iff_nth_less
  proof (intro allI impI)
    fix i j assume "i < j" "j < length ?ids"
    then have "unat (?ids ! i) < unat (?ids ! j)"
      using val [of i] val [of j] len by simp
    then show "?ids ! i < ?ids ! j" by (simp add: word_less_nat_alt)
  qed
  then have dis: "distinct ?ids" by (simp add: strict_sorted_iff)
  have nz: "0 \<notin> set ?ids"
  proof
    assume "0 \<in> set ?ids"
    then obtain i where "i < length ?ids" "?ids ! i = 0" by (auto simp: in_set_conv_nth)
    then show False using val [of i] len by simp
  qed
  show ?thesis using ids srt dis nz by blast
qed

theorem handler_ids_increase_witness:
  "fst (serve None [Subscribe (typeid_of 0) (0::nat), Unsubscribe (typeid_of 0) 1,
                    Subscribe (typeid_of 1) 1, Subscribe (typeid_of 0) 2] EventBus_new) = [1, 2, 3]"
  using handler_ids_increase
    [of "[Subscribe (typeid_of 0) (0::nat), Unsubscribe (typeid_of 0) 1,
          Subscribe (typeid_of 1) 1, Subscribe (typeid_of 0) 2]" None]
  by (simp add: upt_rec)

lemma churn_bus:
  "snd (serve wt (churn n) EventBus_new) = \<lparr>subscribers = Map.empty, nextId = of_nat (Suc n)\<rparr>"
proof (induction n)
  case 0
  then show ?case by (simp add: EventBus_new_def)
next
  case (Suc n)
  show ?case
    by (simp add: serve_append Suc split_beta EventBus_subscribe_def EventBus_unsubscribe_def Let_def)
qed

lemma churn_ids: "fst (serve wt (churn n) EventBus_new) = map of_nat [1..<Suc n]"
proof (induction n)
  case 0
  then show ?case by simp
next
  case (Suc n)
  have "fst (serve wt (churn (Suc n)) EventBus_new) =
          fst (serve wt (churn n) EventBus_new) @ [of_nat (Suc n)]"
    by (simp add: serve_append churn_bus split_beta token_subscribe)
  then show ?case using Suc by simp
qed

lemma churn_then_subscribe:
  "serve wt (churn n @ [Subscribe T c]) EventBus_new =
     (map of_nat [1..<Suc n] @ [of_nat (Suc n)],
      \<lparr>subscribers = [T \<mapsto> [\<lparr>wrapper_id = of_nat (Suc n), callback = c\<rparr>]],
       nextId = of_nat (Suc n) + 1\<rparr>)"
  by (simp add: serve_append churn_bus churn_ids split_beta EventBus_subscribe_def Let_def)

text \<open>
  C4, as stated, holds of every sequence of calls. The counter \<^verbatim>\<open>nextId\<close> is a
  \<^verbatim>\<open>size_t\<close> that \<^verbatim>\<open>subscribe\<close> increments without a test. Subscribe a callback
  and release it again \<open>2 ^ 64 - 1\<close> times, which leaves the registry empty each
  time, and subscribe once more: this call finds the counter wrapped around and
  is given the id 0.
\<close>

theorem handler_id_wraps_to_zero:
  "subscribers (snd (serve (Some 0) (churn (2 ^ 64 - 1)) EventBus_new)) = Map.empty \<and>
   last (fst (serve (Some 0) (churn (2 ^ 64 - 1) @ [Subscribe (typeid_of 0) ()]) EventBus_new)) = 0 \<and>
   0 \<in> set (fst (serve (Some 0) (churn (2 ^ 64 - 1) @ [Subscribe (typeid_of 0) ()]) EventBus_new))"
proof -
  have z: "(of_nat (Suc (2 ^ 64 - 1)) :: HandlerId) = 0"
  proof -
    have "Suc (2 ^ 64 - 1) = (2 ^ 64 :: nat)" by simp
    then have "(of_nat (Suc (2 ^ 64 - 1)) :: HandlerId) = of_nat (2 ^ 64)" by (simp only:)
    also have "\<dots> = 0" by simp
    finally show ?thesis .
  qed
  have a: "subscribers (snd (serve (Some 0) (churn (2 ^ 64 - 1)) EventBus_new)) = Map.empty"
    by (simp only: churn_bus) simp
  have ids: "fst (serve (Some 0) (churn (2 ^ 64 - 1) @ [Subscribe (typeid_of 0) ()]) EventBus_new) =
      map of_nat [1..<Suc (2 ^ 64 - 1)] @ [0]"
    by (simp only: churn_then_subscribe fst_conv z)
  have b: "last (fst (serve (Some 0) (churn (2 ^ 64 - 1) @ [Subscribe (typeid_of 0) ()])
      EventBus_new)) = 0"
    by (simp only: ids last_snoc)
  have c: "0 \<in> set (fst (serve (Some 0) (churn (2 ^ 64 - 1) @ [Subscribe (typeid_of 0) ()])
      EventBus_new))"
    by (simp only: ids set_append list.set) blast
  show ?thesis using a b c by (intro conjI)
qed

subsection \<open>C5: removal is idempotent\<close>

lemma unsubscribe_absent:
  assumes "no_empty_bucket bus" and "hid \<notin> wrapper_id ` set (bucket bus T)"
  shows "EventBus_unsubscribe T hid bus = bus"
proof (cases "subscribers bus T")
  case None
  then show ?thesis by (simp add: EventBus_unsubscribe_def)
next
  case (Some l)
  then have ne: "l \<noteq> []" using assms(1) by (auto simp: no_empty_bucket_def)
  have "filter (\<lambda>x. \<not> (wrapper_id x = hid)) l = l"
    using assms(2) Some by (auto simp: bucket_def filter_id_conv)
  moreover have "(subscribers bus)(T \<mapsto> l) = subscribers bus"
    using Some by (simp add: fun_upd_idem)
  ultimately show ?thesis using Some ne by (simp add: EventBus_unsubscribe_def)
qed

lemma unsubscribe_twice:
  "EventBus_unsubscribe T hid (EventBus_unsubscribe T hid bus) = EventBus_unsubscribe T hid bus"
  by (auto simp: EventBus_unsubscribe_def Let_def split: option.splits)

lemma released_unsubscribe:
  "handlerId (tokens w t) = 0 \<Longrightarrow> Subscription_unsubscribe t w = w"
  by (simp add: Subscription_unsubscribe_def)

lemma tokens_unsubscribe_at: "tokens (unsubscribe_at a T hid w) = tokens w"
  by (simp add: unsubscribe_at_def split: option.splits)

lemma handlerId_after_unsubscribe:
  "handlerId (tokens (Subscription_unsubscribe t w) t) = 0"
  by (simp add: Subscription_unsubscribe_def Let_def tokens_unsubscribe_at split: option.splits)

lemma Subscription_unsubscribe_twice:
  "Subscription_unsubscribe t (Subscription_unsubscribe t w) = Subscription_unsubscribe t w"
  by (rule released_unsubscribe) (rule handlerId_after_unsubscribe)

lemma buses_active_unsubscribe:
  assumes "handlerId (tokens w t) \<noteq> 0" and "weakBus (tokens w t) = Some a"
    and "buses w a = Some bus"
  shows "buses (Subscription_unsubscribe t w) =
           (buses w)(a \<mapsto> EventBus_unsubscribe (eventType (tokens w t)) (handlerId (tokens w t)) bus)"
  using assms by (simp add: Subscription_unsubscribe_def Let_def lock_def unsubscribe_at_def)

lemma buses_dead_unsubscribe:
  assumes "lock (weakBus (tokens w t)) w = None"
  shows "buses (Subscription_unsubscribe t w) = buses w"
  using assms by (simp add: Subscription_unsubscribe_def Let_def)

text \<open>
  C5: on a registry with no empty bucket, \<^verbatim>\<open>unsubscribe(type, id)\<close> with an id that
  the bucket of the type does not hold (the bucket may be absent) returns the
  registry as it was, and a second \<^verbatim>\<open>unsubscribe\<close> with the same arguments
  changes nothing in any case. Releasing a token a second time, or releasing a
  token whose id is the sentinel 0, leaves the whole store as it is. Neither
  function has an error result or calls a callback, and after an active token
  has been released no publish on its bus calls a wrapper with its id for its
  type.
\<close>

theorem unsubscribe_idempotent:
  "(no_empty_bucket bus \<and> hid \<notin> wrapper_id ` set (bucket bus T) \<longrightarrow>
      EventBus_unsubscribe T hid bus = bus) \<and>
   EventBus_unsubscribe T hid (EventBus_unsubscribe T hid bus) = EventBus_unsubscribe T hid bus \<and>
   Subscription_unsubscribe t (Subscription_unsubscribe t w) = Subscription_unsubscribe t w \<and>
   (handlerId (tokens w t) = 0 \<longrightarrow> Subscription_unsubscribe t w = w) \<and>
   (handlerId (tokens w t) \<noteq> 0 \<and> weakBus (tokens w t) = Some a \<and>
    EventBus_publish run a (eventType (tokens w t)) event (Subscription_unsubscribe t w) =
      Some (calls, r) \<longrightarrow>
    (\<forall>c \<in> set calls. wrapper_id (fst c) \<noteq> handlerId (tokens w t)))"
proof -
  have last: "\<forall>c \<in> set calls. wrapper_id (fst c) \<noteq> handlerId (tokens w t)"
    if act: "handlerId (tokens w t) \<noteq> 0" and wb: "weakBus (tokens w t) = Some a"
      and pub: "EventBus_publish run a (eventType (tokens w t)) event (Subscription_unsubscribe t w) =
        Some (calls, r)"
  proof (cases "buses w a")
    case None
    then have "lock (weakBus (tokens w t)) w = None" by (simp add: lock_def wb)
    then have "buses (Subscription_unsubscribe t w) a = None"
      using None by (simp add: buses_dead_unsubscribe)
    then show ?thesis using pub by (simp add: EventBus_publish_def)
  next
    case (Some bus)
    let ?bus' = "EventBus_unsubscribe (eventType (tokens w t)) (handlerId (tokens w t)) bus"
    have "buses (Subscription_unsubscribe t w) a = Some ?bus'"
      using buses_active_unsubscribe [OF act wb Some] by simp
    then have "set (map fst calls) \<subseteq> set (bucket ?bus' (eventType (tokens w t)))"
      using pub by (rule publish_calls_subset)
    then show ?thesis by (auto simp: bucket_unsubscribe)
  qed
  show ?thesis
    using unsubscribe_absent [of bus hid T] unsubscribe_twice [of T hid bus]
      Subscription_unsubscribe_twice [of t w] released_unsubscribe [of w t] last
    by blast
qed

lemma two_listeners_bus_eq:
  "two_listeners_bus =
     \<lparr>subscribers = [typeid_of 0 \<mapsto>
        [\<lparr>wrapper_id = 1, callback = 0\<rparr>, \<lparr>wrapper_id = 2, callback = 1\<rparr>]], nextId = 3\<rparr>"
  by (simp add: two_listeners_bus_def EventBus_subscribe_def EventBus_new_def Let_def)

lemma two_listeners_no_empty: "no_empty_bucket two_listeners_bus"
  by (simp add: no_empty_bucket_def two_listeners_bus_eq)

theorem unsubscribe_idempotent_witness:
  "EventBus_unsubscribe (typeid_of 0) 9 two_listeners_bus = two_listeners_bus \<and>
   Subscription_unsubscribe 2 (Subscription_unsubscribe 2 two_listeners_held) =
     Subscription_unsubscribe 2 two_listeners_held \<and>
   Subscription_unsubscribe 5 two_listeners_held = two_listeners_held \<and>
   EventBus_publish quiet 0 (typeid_of 0) 5 (Subscription_unsubscribe 2 two_listeners_held) =
     Some ([(\<lparr>wrapper_id = 1, callback = 0\<rparr>, 5)],
           Returned (Subscription_unsubscribe 2 two_listeners_held)) \<and>
   2 \<notin> set (map (wrapper_id \<circ> fst) [(\<lparr>wrapper_id = 1, callback = (0::nat)\<rparr>, 5::nat)])"
proof -
  let ?w = two_listeners_held
  have h1: "no_empty_bucket two_listeners_bus \<and>
            9 \<notin> wrapper_id ` set (bucket two_listeners_bus (typeid_of 0))"
    by (simp add: two_listeners_no_empty two_listeners_bucket)
  have h4: "handlerId (tokens ?w 5) = 0"
    by (simp add: two_listeners_held_def two_listeners_def Subscription_default_def)
  have tok: "tokens ?w 2 = \<lparr>weakBus = Some 0, eventType = typeid_of 0, handlerId = 2\<rparr>"
    by (simp add: two_listeners_held_def)
  have alive: "buses ?w 0 = Some two_listeners_bus"
    by (simp add: two_listeners_held_def two_listeners_def)
  have b: "buses (Subscription_unsubscribe 2 ?w) 0 =
             Some (EventBus_unsubscribe (typeid_of 0) 2 two_listeners_bus)"
    using buses_active_unsubscribe [of ?w 2 0 two_listeners_bus] tok alive by simp
  have pub: "EventBus_publish quiet 0 (typeid_of 0) 5 (Subscription_unsubscribe 2 ?w) =
     Some ([(\<lparr>wrapper_id = 1, callback = 0\<rparr>, 5)], Returned (Subscription_unsubscribe 2 ?w))"
    by (simp add: publish_cases [OF b] bucket_unsubscribe two_listeners_bucket quiet_def)
  have h5: "handlerId (tokens ?w 2) \<noteq> 0 \<and> weakBus (tokens ?w 2) = Some 0 \<and>
     EventBus_publish quiet 0 (eventType (tokens ?w 2)) 5 (Subscription_unsubscribe 2 ?w) =
     Some ([(\<lparr>wrapper_id = 1, callback = 0\<rparr>, 5)], Returned (Subscription_unsubscribe 2 ?w))"
    using pub by (simp add: tok)
  show ?thesis
    using unsubscribe_idempotent [where bus = two_listeners_bus and hid = 9 and T = "typeid_of 0"
        and t = 2 and w = ?w and a = 0 and run = quiet and event = 5
        and calls = "[(\<lparr>wrapper_id = 1, callback = 0\<rparr>, 5)]"
        and r = "Returned (Subscription_unsubscribe 2 ?w)"]
      unsubscribe_idempotent [where t = 5 and w = ?w and T = "typeid_of 0" and hid = 9
        and bus = two_listeners_bus and a = 0 and run = quiet and event = 5
        and calls = "[]" and r = "Returned ?w"]
      h1 h4 h5 pub
    by (simp add: tok)
qed

subsection \<open>C6: no empty bucket\<close>

lemma no_empty_new: "no_empty_bucket EventBus_new"
  by (simp add: no_empty_bucket_def EventBus_new_def)

lemma no_empty_subscribe:
  "no_empty_bucket bus \<Longrightarrow> no_empty_bucket (snd (EventBus_subscribe wt T c bus))"
  by (simp add: no_empty_bucket_def EventBus_subscribe_def Let_def)

lemma no_empty_unsubscribe:
  "no_empty_bucket bus \<Longrightarrow> no_empty_bucket (EventBus_unsubscribe T hid bus)"
  by (auto simp: no_empty_bucket_def EventBus_unsubscribe_def Let_def split: option.splits)

lemma world_ok_subscribe_at:
  "world_ok w \<Longrightarrow> subscribe_at this T c w = Some (token, w') \<Longrightarrow> world_ok w'"
  by (auto simp: world_ok_def subscribe_at_def no_empty_subscribe split_beta
      split: option.splits if_splits)

lemma world_ok_unsubscribe_at: "world_ok w \<Longrightarrow> world_ok (unsubscribe_at this T hid w)"
  by (auto simp: world_ok_def unsubscribe_at_def no_empty_unsubscribe
      split: option.splits if_splits)

lemma world_ok_tokens: "world_ok (w\<lparr>tokens := ts\<rparr>) = world_ok w"
  by (simp add: world_ok_def)

lemma world_ok_release: "world_ok w \<Longrightarrow> world_ok (Subscription_unsubscribe t w)"
  by (auto simp: Subscription_unsubscribe_def Let_def world_ok_tokens world_ok_unsubscribe_at
      split: option.splits)

lemma world_ok_deliver:
  "preserves_ok run \<Longrightarrow> world_ok w \<Longrightarrow> world_ok (state_of (snd (deliver run v l w)))"
proof (induction l arbitrary: w)
  case Nil
  then show ?case by simp
next
  case (Cons x xs)
  have step: "world_ok (state_of (run (callback x) v w))"
    using Cons.prems by (simp add: preserves_ok_def)
  show ?case
  proof (cases "run (callback x) v w")
    case (Returned w')
    then have "world_ok w'" using step by simp
    then have "world_ok (state_of (snd (deliver run v xs w')))"
      using Cons.IH Cons.prems(1) by blast
    then show ?thesis using Returned by (simp add: split_beta)
  next
    case (Thrown w')
    then show ?thesis using step by simp
  qed
qed

lemma world_ok_publish:
  "preserves_ok run \<Longrightarrow> world_ok w \<Longrightarrow> EventBus_publish run this T v w = Some (calls, r) \<Longrightarrow>
     world_ok (state_of r)"
  using world_ok_deliver [of run w v]
  by (auto simp: EventBus_publish_def split: option.splits if_splits) (metis snd_conv)

lemma world_ok_apply_call:
  "preserves_ok run \<Longrightarrow> world_ok w \<Longrightarrow> world_ok (apply_call run this c w)"
proof (cases c)
  case (CallSubscribe T cb)
  assume "preserves_ok run" "world_ok w"
  then show ?thesis using CallSubscribe world_ok_subscribe_at [of w this T cb]
    by (auto split: option.splits)
next
  case (CallPublish T v)
  assume "preserves_ok run" "world_ok w"
  then show ?thesis using CallPublish world_ok_publish [of run w this T v]
    by (auto split: option.splits)
next
  case (CallUnsubscribe T hid)
  assume "preserves_ok run" "world_ok w"
  then show ?thesis using CallUnsubscribe by (simp add: world_ok_unsubscribe_at)
next
  case (CallRelease t)
  assume "preserves_ok run" "world_ok w"
  then show ?thesis using CallRelease by (simp add: world_ok_release)
qed

lemma world_ok_apply_calls:
  "preserves_ok run \<Longrightarrow> world_ok w \<Longrightarrow> world_ok (apply_calls run this cs w)"
  by (induction cs arbitrary: w) (simp_all add: world_ok_apply_call)

lemma last_subscriber_erases:
  assumes "subscribers bus T = Some l" and "\<forall>x \<in> set l. wrapper_id x = hid"
  shows "subscribers (EventBus_unsubscribe T hid bus) T = None"
proof -
  have "filter (\<lambda>x. \<not> (wrapper_id x = hid)) l = []"
    using assms(2) by (simp add: filter_empty_conv)
  then show ?thesis using assms(1) by (simp add: EventBus_unsubscribe_def)
qed

lemma unsubscribe_no_bucket:
  "subscribers bus T = None \<Longrightarrow> subscribers (EventBus_unsubscribe T hid bus) T = None"
  by (simp add: EventBus_unsubscribe_def)

text \<open>
  C6: a new bus has no empty bucket, and any sequence of calls of \<^verbatim>\<open>subscribe\<close>,
  \<^verbatim>\<open>publish\<close> and \<^verbatim>\<open>unsubscribe\<close> and of token releases, run on a store whose
  buses have none, leaves a store whose buses have none; the callbacks that a
  publish runs are taken to keep the invariant, as they do when they change a
  bus through its member functions. When an active token is released whose id
  is that of every wrapper left in the bucket of its type, the entry of the
  type is erased from the map.
\<close>

theorem no_empty_bucket_invariant:
  "no_empty_bucket EventBus_new \<and>
   (world_ok w \<and> preserves_ok run \<longrightarrow> world_ok (apply_calls run this cs w)) \<and>
   (handlerId (tokens w t) \<noteq> 0 \<and> weakBus (tokens w t) = Some a \<and> buses w a = Some bus \<and>
    (\<forall>x \<in> set (bucket bus (eventType (tokens w t))). wrapper_id x = handlerId (tokens w t)) \<longrightarrow>
    (\<exists>bus'. buses (Subscription_unsubscribe t w) a = Some bus' \<and>
            subscribers bus' (eventType (tokens w t)) = None))"
proof -
  have erase: "\<exists>bus'. buses (Subscription_unsubscribe t w) a = Some bus' \<and>
            subscribers bus' (eventType (tokens w t)) = None"
    if act: "handlerId (tokens w t) \<noteq> 0" and wb: "weakBus (tokens w t) = Some a"
      and alive: "buses w a = Some bus"
      and only: "\<forall>x \<in> set (bucket bus (eventType (tokens w t))). wrapper_id x = handlerId (tokens w t)"
  proof -
    let ?T = "eventType (tokens w t)" and ?h = "handlerId (tokens w t)"
    have b: "buses (Subscription_unsubscribe t w) a = Some (EventBus_unsubscribe ?T ?h bus)"
      using buses_active_unsubscribe [OF act wb alive] by simp
    have "subscribers (EventBus_unsubscribe ?T ?h bus) ?T = None"
    proof (cases "subscribers bus ?T")
      case None
      then show ?thesis by (rule unsubscribe_no_bucket)
    next
      case (Some l)
      then have "\<forall>x \<in> set l. wrapper_id x = ?h" using only by (simp add: bucket_def)
      with Some show ?thesis by (rule last_subscriber_erases)
    qed
    with b show ?thesis by blast
  qed
  show ?thesis
    using no_empty_new world_ok_apply_calls [of run w this cs] erase by blast
qed

lemma two_listeners_held_ok: "world_ok two_listeners_held"
  by (simp add: world_ok_def two_listeners_held_def two_listeners_def two_listeners_no_empty)

lemma resubscribing_preserves_ok: "preserves_ok resubscribing"
  unfolding preserves_ok_def
proof (intro allI impI)
  fix c v :: nat and w :: "nat world"
  assume ok: "world_ok w"
  show "world_ok (state_of (resubscribing c v w))"
  proof (cases "c = 0")
    case False
    then show ?thesis using ok by (simp add: resubscribing_def)
  next
    case True
    show ?thesis
    proof (cases "subscribe_at 0 (typeid_of 0) 7 w")
      case None
      then show ?thesis using ok True by (simp add: resubscribing_def)
    next
      case (Some p)
      obtain token w' where p: "p = (token, w')" by (cases p)
      have "subscribe_at 0 (typeid_of 0) 7 w = Some (token, w')" using Some p by simp
      with ok have "world_ok w'" by (rule world_ok_subscribe_at)
      then show ?thesis using True Some p by (simp add: resubscribing_def world_ok_tokens)
    qed
  qed
qed

theorem no_empty_bucket_invariant_witness:
  "world_ok (apply_calls resubscribing 0
      [CallSubscribe (typeid_of 1) 4, CallPublish (typeid_of 0) 5,
       CallUnsubscribe (typeid_of 0) 1, CallRelease 2] two_listeners_held) \<and>
   (\<exists>bus'. buses (Subscription_unsubscribe 1 one_listener_held) 0 = Some bus' \<and>
           subscribers bus' (typeid_of 0) = None)"
proof -
  let ?b = "snd (EventBus_subscribe (Some 0) (typeid_of 0) (0::nat) EventBus_new)"
  have tok: "tokens one_listener_held 1 =
      \<lparr>weakBus = Some 0, eventType = typeid_of 0, handlerId = 1\<rparr>"
    by (simp add: one_listener_held_def token_subscribe EventBus_new_def)
  have alive: "buses one_listener_held 0 = Some ?b"
    by (simp add: one_listener_held_def)
  have only: "\<forall>x \<in> set (bucket ?b (typeid_of 0)). wrapper_id x = 1"
    by (simp add: bucket_subscribe bucket_new) (simp add: EventBus_new_def)
  have A: "world_ok (apply_calls resubscribing 0
      [CallSubscribe (typeid_of 1) 4, CallPublish (typeid_of 0) 5,
       CallUnsubscribe (typeid_of 0) 1, CallRelease 2] two_listeners_held)"
    using no_empty_bucket_invariant [where w = two_listeners_held and run = resubscribing
        and this = 0 and cs = "[CallSubscribe (typeid_of 1) 4, CallPublish (typeid_of 0) 5,
          CallUnsubscribe (typeid_of 0) 1, CallRelease 2]"]
      two_listeners_held_ok resubscribing_preserves_ok
    by blast
  have act: "handlerId (tokens one_listener_held 1) \<noteq> 0 \<and>
        weakBus (tokens one_listener_held 1) = Some 0 \<and>
        eventType (tokens one_listener_held 1) = typeid_of 0 \<and>
        handlerId (tokens one_listener_held 1) = 1"
    unfolding tok by simp
  have B: "\<exists>bus'. buses (Subscription_unsubscribe 1 one_listener_held) 0 = Some bus' \<and>
           subscribers bus' (typeid_of 0) = None"
    using no_empty_bucket_invariant [where w = one_listener_held and t = 1 and a = 0
        and bus = ?b] act alive only
    by metis
  show ?thesis using A B by (rule conjI)
qed

subsection \<open>C7: releasing a token whose bus is gone\<close>

lemma unsubscribe_unresolved:
  assumes "handlerId (tokens w t) \<noteq> 0" and "lock (weakBus (tokens w t)) w = None"
  shows "Subscription_unsubscribe t w =
           w\<lparr>tokens := (tokens w)(t := (tokens w t)\<lparr>handlerId := 0, weakBus := None\<rparr>)\<rparr>"
  using assms by (simp add: Subscription_unsubscribe_def Let_def)

lemma lock_destroyed: "buses w a = None \<Longrightarrow> lock (Some a) w = None"
  by (simp add: lock_def)

text \<open>
  C7: let a token be active (its id is not 0) and let its weak reference not
  resolve, the bus having been destroyed. Releasing or destroying the token
  changes no bus of the store and leaves the token released: its id is 0 and
  its reference is empty. \<^verbatim>\<open>Subscription::unsubscribe\<close> has no error result.
\<close>

theorem release_after_bus_destroyed:
  assumes active: "handlerId (tokens w t) \<noteq> 0"
    and dead: "lock (weakBus (tokens w t)) w = None"
  shows "Subscription_unsubscribe t w =
           w\<lparr>tokens := (tokens w)(t := (tokens w t)\<lparr>handlerId := 0, weakBus := None\<rparr>)\<rparr> \<and>
         Subscription_destroy t w = Subscription_unsubscribe t w \<and>
         buses (Subscription_unsubscribe t w) = buses w \<and>
         handlerId (tokens (Subscription_unsubscribe t w) t) = 0 \<and>
         weakBus (tokens (Subscription_unsubscribe t w) t) = None"
  using unsubscribe_unresolved [OF active dead]
  by (simp add: Subscription_destroy_def)

theorem release_after_bus_destroyed_witness:
  "lock (weakBus (tokens (EventBus_destroy 0 two_listeners_held) 1))
     (EventBus_destroy 0 two_listeners_held) = None \<and>
   buses (Subscription_unsubscribe 1 (EventBus_destroy 0 two_listeners_held)) =
     buses (EventBus_destroy 0 two_listeners_held) \<and>
   handlerId (tokens (Subscription_unsubscribe 1 (EventBus_destroy 0 two_listeners_held)) 1) = 0 \<and>
   weakBus (tokens (Subscription_unsubscribe 1 (EventBus_destroy 0 two_listeners_held)) 1) = None"
proof -
  let ?w = "EventBus_destroy 0 two_listeners_held"
  have tok: "tokens ?w 1 = \<lparr>weakBus = Some 0, eventType = typeid_of 0, handlerId = 1\<rparr>"
    by (simp add: EventBus_destroy_def two_listeners_held_def)
  have a: "handlerId (tokens ?w 1) \<noteq> 0" unfolding tok by simp
  have d: "lock (weakBus (tokens ?w 1)) ?w = None"
    unfolding tok by (simp add: lock_def EventBus_destroy_def)
  show ?thesis
    using release_after_bus_destroyed [OF a d] d by simp
qed

subsection \<open>C8: a move carries the subscription and releases the source\<close>

lemma moveFrom_eq:
  "moveFrom self other = (other, other\<lparr>handlerId := 0, weakBus := None\<rparr>)"
  by (simp add: moveFrom_def)

lemma tokens_unsubscribe_other:
  "u \<noteq> t \<Longrightarrow> tokens (Subscription_unsubscribe t w) u = tokens w u"
  by (simp add: Subscription_unsubscribe_def Let_def tokens_unsubscribe_at split: option.splits)

lemma move_construct_eq:
  "Subscription_move_construct this other w =
     w\<lparr>tokens := (tokens w)(this := tokens w other,
                            other := (tokens w other)\<lparr>handlerId := 0, weakBus := None\<rparr>)\<rparr>"
  by (simp add: Subscription_move_construct_def moveFrom_eq)

lemma move_assign_eq:
  "this \<noteq> other \<Longrightarrow>
   Subscription_move_assign this other w =
     (Subscription_unsubscribe this w)\<lparr>tokens := (tokens (Subscription_unsubscribe this w))
        (this := tokens w other, other := (tokens w other)\<lparr>handlerId := 0, weakBus := None\<rparr>)\<rparr>"
  by (simp add: Subscription_move_assign_def moveFrom_eq Let_def tokens_unsubscribe_other)

lemma filter_id_after_unsubscribe:
  assumes "T' \<noteq> T \<or> hid \<noteq> h"
  shows "filter (\<lambda>x. wrapper_id x = h) (bucket (EventBus_unsubscribe T' hid bus) T) =
         filter (\<lambda>x. wrapper_id x = h) (bucket bus T)"
proof (cases "T = T'")
  case False
  then show ?thesis by (simp add: bucket_unsubscribe)
next
  case True
  then have "hid \<noteq> h" using assms by simp
  then have f: "filter (\<lambda>x. wrapper_id x = h) (filter (\<lambda>x. wrapper_id x \<noteq> hid) l) =
             filter (\<lambda>x. wrapper_id x = h) l" for l :: "'a EventWrapper list"
    by (induction l) auto
  have "bucket (EventBus_unsubscribe T' hid bus) T =
          filter (\<lambda>x. wrapper_id x \<noteq> hid) (bucket bus T)"
    using True by (simp add: bucket_unsubscribe)
  then show ?thesis by (simp only: f)
qed

lemma release_keeps_others:
  assumes alive: "buses w a = Some bus"
    and other: "eventType (tokens w t) \<noteq> T \<or> handlerId (tokens w t) \<noteq> h"
  shows "\<exists>bus'. buses (Subscription_unsubscribe t w) a = Some bus' \<and>
           filter (\<lambda>x. wrapper_id x = h) (bucket bus' T) =
           filter (\<lambda>x. wrapper_id x = h) (bucket bus T)"
proof (cases "handlerId (tokens w t) = 0")
  case True
  then show ?thesis using alive by (simp add: released_unsubscribe)
next
  case False
  show ?thesis
  proof (cases "lock (weakBus (tokens w t)) w")
    case None
    then show ?thesis using alive by (simp add: buses_dead_unsubscribe)
  next
    case (Some d)
    then have wb: "weakBus (tokens w t) = Some d"
      by (auto simp: lock_def split: option.splits)
    from Some obtain busd where d: "buses w d = Some busd"
      by (auto simp: lock_def split: option.splits)
    have b: "buses (Subscription_unsubscribe t w) =
        (buses w)(d \<mapsto> EventBus_unsubscribe (eventType (tokens w t)) (handlerId (tokens w t)) busd)"
      using False wb d by (rule buses_active_unsubscribe)
    show ?thesis
    proof (cases "a = d")
      case True
      then have "busd = bus" using alive d by simp
      then show ?thesis
        using True b filter_id_after_unsubscribe [OF other, of bus] by simp
    next
      case False
      then show ?thesis using b alive by simp
    qed
  qed
qed

text \<open>
  C8: move construction and move assignment from a distinct token object leave
  the destination with the bus reference, type and id of the source, and the
  source with the id 0 and an empty reference. The construction changes no bus.
  The assignment changes the buses as the release of the destination's own
  subscription does, and not at all when the destination was released
  already. Moving the source's subscription removes nothing: the wrappers of
  the source's id stay in the bucket of its type, the destination holding
  another type or id. Destroying the moved-from source afterwards changes
  nothing.
\<close>

theorem move_transfers_subscription:
  assumes distinct_objects: "this \<noteq> other"
  shows "tokens (Subscription_move_construct this other w) this = tokens w other \<and>
         handlerId (tokens (Subscription_move_construct this other w) other) = 0 \<and>
         weakBus (tokens (Subscription_move_construct this other w) other) = None \<and>
         buses (Subscription_move_construct this other w) = buses w \<and>
         Subscription_destroy other (Subscription_move_construct this other w) =
           Subscription_move_construct this other w \<and>
         tokens (Subscription_move_assign this other w) this = tokens w other \<and>
         handlerId (tokens (Subscription_move_assign this other w) other) = 0 \<and>
         weakBus (tokens (Subscription_move_assign this other w) other) = None \<and>
         buses (Subscription_move_assign this other w) = buses (Subscription_unsubscribe this w) \<and>
         (handlerId (tokens w this) = 0 \<longrightarrow> buses (Subscription_move_assign this other w) = buses w) \<and>
         (buses w a = Some bus \<and>
          (eventType (tokens w this) \<noteq> eventType (tokens w other) \<or>
           handlerId (tokens w this) \<noteq> handlerId (tokens w other)) \<longrightarrow>
            (\<exists>bus'. buses (Subscription_move_assign this other w) a = Some bus' \<and>
               filter (\<lambda>x. wrapper_id x = handlerId (tokens w other))
                 (bucket bus' (eventType (tokens w other))) =
               filter (\<lambda>x. wrapper_id x = handlerId (tokens w other))
                 (bucket bus (eventType (tokens w other))))) \<and>
         Subscription_destroy other (Subscription_move_assign this other w) =
           Subscription_move_assign this other w"
proof -
  let ?c = "Subscription_move_construct this other w"
  let ?a = "Subscription_move_assign this other w"
  have c1: "tokens ?c this = tokens w other" and c2: "handlerId (tokens ?c other) = 0"
    and c3: "weakBus (tokens ?c other) = None" and c4: "buses ?c = buses w"
    using distinct_objects by (simp_all add: move_construct_eq)
  have c5: "Subscription_destroy other ?c = ?c"
    unfolding Subscription_destroy_def using c2 by (rule released_unsubscribe)
  have a1: "tokens ?a this = tokens w other" and a2: "handlerId (tokens ?a other) = 0"
    and a3: "weakBus (tokens ?a other) = None"
    and a4: "buses ?a = buses (Subscription_unsubscribe this w)"
    using distinct_objects by (simp_all add: move_assign_eq)
  have a5: "buses ?a = buses w" if "handlerId (tokens w this) = 0"
    using a4 released_unsubscribe [OF that] by simp
  have a6: "Subscription_destroy other ?a = ?a"
    unfolding Subscription_destroy_def using a2 by (rule released_unsubscribe)
  have a7: "\<exists>bus'. buses ?a a = Some bus' \<and>
               filter (\<lambda>x. wrapper_id x = handlerId (tokens w other))
                 (bucket bus' (eventType (tokens w other))) =
               filter (\<lambda>x. wrapper_id x = handlerId (tokens w other))
                 (bucket bus (eventType (tokens w other)))"
    if "buses w a = Some bus"
      and "eventType (tokens w this) \<noteq> eventType (tokens w other) \<or>
           handlerId (tokens w this) \<noteq> handlerId (tokens w other)"
    unfolding a4 using that by (rule release_keeps_others)
  show ?thesis using c1 c2 c3 c4 c5 a1 a2 a3 a4 a5 a6 a7 by blast
qed

theorem move_transfers_subscription_witness:
  "tokens (Subscription_move_construct 7 1 two_listeners_held) 7 =
     \<lparr>weakBus = Some 0, eventType = typeid_of 0, handlerId = 1\<rparr> \<and>
   handlerId (tokens (Subscription_move_construct 7 1 two_listeners_held) 1) = 0 \<and>
   buses (Subscription_move_construct 7 1 two_listeners_held) = buses two_listeners_held \<and>
   tokens (Subscription_move_assign 7 1 two_listeners_held) 7 =
     \<lparr>weakBus = Some 0, eventType = typeid_of 0, handlerId = 1\<rparr> \<and>
   buses (Subscription_move_assign 7 1 two_listeners_held) = buses two_listeners_held \<and>
   (\<exists>bus'. buses (Subscription_move_assign 2 1 two_listeners_held) 0 = Some bus' \<and>
      filter (\<lambda>x. wrapper_id x = 1) (bucket bus' (typeid_of 0)) =
        [\<lparr>wrapper_id = 1, callback = 0\<rparr>])"
proof -
  have ne: "(7::nat) \<noteq> 1" and ne2: "(2::nat) \<noteq> 1" by simp_all
  have tok: "tokens two_listeners_held 1 =
      \<lparr>weakBus = Some 0, eventType = typeid_of 0, handlerId = 1\<rparr>"
    and tok2: "tokens two_listeners_held 2 =
      \<lparr>weakBus = Some 0, eventType = typeid_of 0, handlerId = 2\<rparr>"
    by (simp_all add: two_listeners_held_def)
  have rel: "handlerId (tokens two_listeners_held 7) = 0"
    by (simp add: two_listeners_held_def two_listeners_def Subscription_default_def)
  have alive: "buses two_listeners_held 0 = Some two_listeners_bus"
    by (simp add: two_listeners_held_def two_listeners_def)
  have other: "eventType (tokens two_listeners_held 2) \<noteq> eventType (tokens two_listeners_held 1) \<or>
      handlerId (tokens two_listeners_held 2) \<noteq> handlerId (tokens two_listeners_held 1)"
    unfolding tok tok2 by simp
  have A: "tokens (Subscription_move_construct 7 1 two_listeners_held) 7 =
     \<lparr>weakBus = Some 0, eventType = typeid_of 0, handlerId = 1\<rparr> \<and>
   handlerId (tokens (Subscription_move_construct 7 1 two_listeners_held) 1) = 0 \<and>
   buses (Subscription_move_construct 7 1 two_listeners_held) = buses two_listeners_held \<and>
   tokens (Subscription_move_assign 7 1 two_listeners_held) 7 =
     \<lparr>weakBus = Some 0, eventType = typeid_of 0, handlerId = 1\<rparr> \<and>
   buses (Subscription_move_assign 7 1 two_listeners_held) = buses two_listeners_held"
    using move_transfers_subscription [OF ne, of two_listeners_held] rel
    unfolding tok by blast
  have "\<exists>bus'. buses (Subscription_move_assign 2 1 two_listeners_held) 0 = Some bus' \<and>
      filter (\<lambda>x. wrapper_id x = handlerId (tokens two_listeners_held 1))
        (bucket bus' (eventType (tokens two_listeners_held 1))) =
      filter (\<lambda>x. wrapper_id x = handlerId (tokens two_listeners_held 1))
        (bucket two_listeners_bus (eventType (tokens two_listeners_held 1)))"
    using move_transfers_subscription [OF ne2, of two_listeners_held 0 two_listeners_bus]
      alive other by blast
  then have B: "\<exists>bus'. buses (Subscription_move_assign 2 1 two_listeners_held) 0 = Some bus' \<and>
      filter (\<lambda>x. wrapper_id x = 1) (bucket bus' (typeid_of 0)) =
        [\<lparr>wrapper_id = 1, callback = 0\<rparr>]"
    unfolding tok by (simp add: two_listeners_bucket)
  show ?thesis using A B by blast
qed

subsection \<open>C9: move assignment onto an active token\<close>

text \<open>
  C9: move assignment from a distinct object onto an active token whose bus is
  alive is the release of that token followed by the move: the bus of the
  destination loses the wrappers with the destination's old id in the bucket
  of its old type, and the destination then holds the source's subscription.
  Assigning a token to itself changes nothing.
\<close>

theorem move_assign_releases_destination:
  "(this \<noteq> other \<and> handlerId (tokens w this) \<noteq> 0 \<and> weakBus (tokens w this) = Some a \<and>
    buses w a = Some bus \<longrightarrow>
      Subscription_move_assign this other w =
        Subscription_move_construct this other (Subscription_unsubscribe this w) \<and>
      buses (Subscription_move_assign this other w) =
        (buses w)(a \<mapsto> EventBus_unsubscribe (eventType (tokens w this))
                          (handlerId (tokens w this)) bus) \<and>
      handlerId (tokens w this) \<notin> wrapper_id `
        set (bucket (EventBus_unsubscribe (eventType (tokens w this))
                       (handlerId (tokens w this)) bus) (eventType (tokens w this))) \<and>
      tokens (Subscription_move_assign this other w) this = tokens w other) \<and>
   Subscription_move_assign this this w = w"
proof -
  have main: "Subscription_move_assign this other w =
        Subscription_move_construct this other (Subscription_unsubscribe this w) \<and>
      buses (Subscription_move_assign this other w) =
        (buses w)(a \<mapsto> EventBus_unsubscribe (eventType (tokens w this))
                          (handlerId (tokens w this)) bus) \<and>
      handlerId (tokens w this) \<notin> wrapper_id `
        set (bucket (EventBus_unsubscribe (eventType (tokens w this))
                       (handlerId (tokens w this)) bus) (eventType (tokens w this))) \<and>
      tokens (Subscription_move_assign this other w) this = tokens w other"
    if ne: "this \<noteq> other" and act: "handlerId (tokens w this) \<noteq> 0"
      and wb: "weakBus (tokens w this) = Some a" and alive: "buses w a = Some bus"
  proof -
    have 1: "Subscription_move_assign this other w =
        Subscription_move_construct this other (Subscription_unsubscribe this w)"
      using ne by (simp add: move_assign_eq move_construct_eq tokens_unsubscribe_other)
    have 2: "buses (Subscription_move_assign this other w) =
        (buses w)(a \<mapsto> EventBus_unsubscribe (eventType (tokens w this))
                          (handlerId (tokens w this)) bus)"
      using ne buses_active_unsubscribe [OF act wb alive] by (simp add: move_assign_eq)
    have 3: "handlerId (tokens w this) \<notin> wrapper_id `
        set (bucket (EventBus_unsubscribe (eventType (tokens w this))
                       (handlerId (tokens w this)) bus) (eventType (tokens w this)))"
      by (auto simp: bucket_unsubscribe)
    have 4: "tokens (Subscription_move_assign this other w) this = tokens w other"
      using ne by (simp add: move_assign_eq)
    show ?thesis using 1 2 3 4 by blast
  qed
  have self: "Subscription_move_assign this this w = w"
    by (simp add: Subscription_move_assign_def)
  show ?thesis using main self by blast
qed

theorem move_assign_releases_destination_witness:
  "bucket (the (buses (Subscription_move_assign 1 2 two_listeners_held) 0)) (typeid_of 0) =
     [\<lparr>wrapper_id = 2, callback = 1\<rparr>] \<and>
   tokens (Subscription_move_assign 1 2 two_listeners_held) 1 =
     \<lparr>weakBus = Some 0, eventType = typeid_of 0, handlerId = 2\<rparr> \<and>
   Subscription_move_assign 1 1 two_listeners_held = two_listeners_held"
proof -
  let ?w = two_listeners_held
  have t1: "tokens ?w 1 = \<lparr>weakBus = Some 0, eventType = typeid_of 0, handlerId = 1\<rparr>"
    and t2: "tokens ?w 2 = \<lparr>weakBus = Some 0, eventType = typeid_of 0, handlerId = 2\<rparr>"
    by (simp_all add: two_listeners_held_def)
  have alive: "buses ?w 0 = Some two_listeners_bus"
    by (simp add: two_listeners_held_def two_listeners_def)
  have h: "(1::nat) \<noteq> 2 \<and> handlerId (tokens ?w 1) \<noteq> 0 \<and> weakBus (tokens ?w 1) = Some 0 \<and>
           buses ?w 0 = Some two_listeners_bus"
    unfolding t1 using alive by simp
  have r: "buses (Subscription_move_assign 1 2 ?w) =
        (buses ?w)(0 \<mapsto> EventBus_unsubscribe (typeid_of 0) 1 two_listeners_bus) \<and>
      tokens (Subscription_move_assign 1 2 ?w) 1 = tokens ?w 2 \<and>
      Subscription_move_assign 1 1 ?w = ?w"
    using move_assign_releases_destination [where this = 1 and other = 2 and w = ?w and a = 0
        and bus = two_listeners_bus] h
    unfolding t1 Subscription.simps by blast
  then show ?thesis
    unfolding t2 by (simp add: bucket_unsubscribe two_listeners_bucket)
qed

subsection \<open>C10: the default token\<close>

text \<open>
  C10: a default-constructed token has the id 0 and an empty bus reference;
  releasing or destroying a token object in that state leaves the store as it
  is.
\<close>

theorem default_token_is_released:
  "handlerId Subscription_default = 0 \<and> weakBus Subscription_default = None \<and>
   (tokens w t = Subscription_default \<longrightarrow>
      Subscription_unsubscribe t w = w \<and> Subscription_destroy t w = w)"
  by (simp add: Subscription_default_def Subscription_destroy_def Subscription_unsubscribe_def)

theorem default_token_is_released_witness:
  "tokens two_listeners_held 5 = Subscription_default \<and>
   Subscription_unsubscribe 5 two_listeners_held = two_listeners_held \<and>
   Subscription_destroy 5 two_listeners_held = two_listeners_held"
proof -
  have d: "tokens two_listeners_held 5 = Subscription_default"
    by (simp add: two_listeners_held_def two_listeners_def)
  show ?thesis
    using default_token_is_released [of two_listeners_held 5] d by simp
qed

end
